theory Spec2Isabelle
  imports Main "HOL-Library.Word"
begin

section \<open>The incremental disassembly region of src/disassemble.cpp\<close>

text \<open>
  A shallow embedding of \<^verbatim>\<open>REHex::DisassemblyRegion\<close> and of the live preview
  \<^verbatim>\<open>REHex::Disassemble::update\<close>. \<^verbatim>\<open>off_t\<close>, \<^verbatim>\<open>int64_t\<close> and the 64-bit addresses of
  the decoder are modelled as \<^typ>\<open>int\<close>: the offsets of a document stay far below
  \<open>2^63\<close>, so no operation of the region overflows. Bytes are \<^typ>\<open>8 word\<close>.
\<close>

type_synonym byte = "8 word"

subsection \<open>Errors\<close>

text \<open>
  \<^verbatim>\<open>ReadError\<close> is the \<^verbatim>\<open>std::exception\<close> thrown by \<^verbatim>\<open>read_data\<close> (with its
  \<^verbatim>\<open>what()\<close> text); \<^verbatim>\<open>AssertionFailed\<close> is a failing \<^verbatim>\<open>assert\<close>.
\<close>

datatype error = ReadError string | AssertionFailed

subsection \<open>The document\<close>

text \<open>
  Modelled from the spec: \<^verbatim>\<open>Document::read_data\<close> is not part of the source file. The
  document byte source is \<^verbatim>\<open>read(offset, length) -> bytes\<close>, failing with a read error
  when the range is not resolvable. A document is its bytes together with the set of
  requests that fail; a successful read returns the bytes of the range that exist, at
  most \<open>max_length\<close> of them (the source bounds its loops by \<^verbatim>\<open>data.size()\<close>).
\<close>

record document =
  doc_contents :: "byte list"
  doc_unreadable :: "int \<Rightarrow> int \<Rightarrow> bool"

definition read_data :: "document \<Rightarrow> int \<Rightarrow> int \<Rightarrow> error + byte list" where
  "read_data doc offset max_length =
     (if offset < 0 \<or> max_length < 0 \<or> doc_unreadable doc offset max_length
      then Inl (ReadError ''read error'')
      else Inr (take (nat max_length) (drop (nat offset) (doc_contents doc))))"

subsection \<open>The decoder\<close>

text \<open>
  Capstone is an external library. A handle \<^verbatim>\<open>csh\<close> is taken as a parameter: the
  function that decodes the instruction at the head of a buffer, at an address, to its
  size, mnemonic and operand text, or fails. \<^verbatim>\<open>cs_disasm_iter\<close> fills in the \<^verbatim>\<open>cs_insn\<close>
  and advances the code pointer, the remaining size and the address by the size of the
  instruction; Capstone never yields an instruction of size 0 or one longer than the
  remaining buffer, so such an answer of the handle counts as a failure to decode.
\<close>

type_synonym csh = "byte list \<Rightarrow> int \<Rightarrow> (nat \<times> string \<times> string) option"

record cs_insn =
  insn_address :: int
  insn_size :: nat
  insn_mnemonic :: string
  insn_op_str :: string

definition cs_disasm_iter :: "csh \<Rightarrow> byte list \<Rightarrow> int \<Rightarrow> (cs_insn \<times> byte list \<times> int) option" where
  "cs_disasm_iter handle code address =
     (case handle code address of
        None \<Rightarrow> None
      | Some (sz, mn, ops) \<Rightarrow>
          if sz = 0 \<or> length code < sz then None
          else Some (\<lparr>insn_address = address, insn_size = sz,
                       insn_mnemonic = mn, insn_op_str = ops\<rparr>,
                     drop sz code, address + int sz))"

text \<open>
  The loop \<^verbatim>\<open>while(cs_disasm_iter(disassembler, &code_, &code_size, &address, insn)) { body }\<close>:
  the body sees the instruction and the bytes it was decoded from (the source's
  \<^verbatim>\<open>[code_ - insn->size, code_)\<close>) and updates the loop's variables \<open>acc\<close>.
\<close>

function cs_while :: "csh \<Rightarrow> (cs_insn \<Rightarrow> byte list \<Rightarrow> 'a \<Rightarrow> 'a) \<Rightarrow> byte list \<Rightarrow> int \<Rightarrow> 'a \<Rightarrow> 'a" where
  "cs_while handle body code address acc =
     (case cs_disasm_iter handle code address of
        None \<Rightarrow> acc
      | Some (insn, code', address') \<Rightarrow>
          cs_while handle body code' address' (body insn (take (insn_size insn) code) acc))"
  by pat_completeness auto
termination
  by (relation "measure (\<lambda>(handle, body, code, address, acc). length code)")
     (auto simp: cs_disasm_iter_def split: option.splits if_splits)

declare cs_while.simps [simp del]

text \<open>
  The instructions that such a loop visits, each with the bytes it was decoded from, and
  the number of bytes they take together.
\<close>

function cs_insns :: "csh \<Rightarrow> byte list \<Rightarrow> int \<Rightarrow> (cs_insn \<times> byte list) list" where
  "cs_insns handle code address =
     (case cs_disasm_iter handle code address of
        None \<Rightarrow> []
      | Some (insn, code', address') \<Rightarrow>
          (insn, take (insn_size insn) code) # cs_insns handle code' address')"
  by pat_completeness auto
termination
  by (relation "measure (\<lambda>(handle, code, address). length code)")
     (auto simp: cs_disasm_iter_def split: option.splits if_splits)

declare cs_insns.simps [simp del]

definition insns_size :: "(cs_insn \<times> byte list) list \<Rightarrow> nat" where
  "insns_size xs = sum_list (map (\<lambda>(insn, bytes). insn_size insn) xs)"

subsection \<open>The dirty set\<close>

text \<open>
  Modelled from the spec: \<^verbatim>\<open>ByteRangeSet\<close> is not part of the source file. The dirty set
  is a range set, a set of still-unprocessed byte sub-ranges: a list of ranges
  \<open>(offset, length)\<close> of positive length, in ascending order, that neither overlap nor
  touch. \<^verbatim>\<open>set_range\<close> adds the bytes of a range, \<^verbatim>\<open>clear_range\<close> removes them; a range of
  no bytes changes nothing.
\<close>

type_synonym ByteRangeSet = "(int \<times> int) list"

definition brs_empty :: "ByteRangeSet \<Rightarrow> bool" where
  "brs_empty rs = (rs = [])"

fun clear_range :: "ByteRangeSet \<Rightarrow> int \<Rightarrow> int \<Rightarrow> ByteRangeSet" where
  "clear_range [] offset len = []"
| "clear_range ((o1, l1) # rs) offset len =
     (if len \<le> 0 then (o1, l1) # rs
      else (if o1 < min (o1 + l1) offset then [(o1, min (o1 + l1) offset - o1)] else [])
         @ (if max o1 (offset + len) < o1 + l1
            then [(max o1 (offset + len), o1 + l1 - max o1 (offset + len))] else [])
         @ clear_range rs offset len)"

fun set_range :: "ByteRangeSet \<Rightarrow> int \<Rightarrow> int \<Rightarrow> ByteRangeSet" where
  "set_range [] offset len = (if len \<le> 0 then [] else [(offset, len)])"
| "set_range ((o1, l1) # rs) offset len =
     (if len \<le> 0 then (o1, l1) # rs
      else if offset + len < o1 then (offset, len) # (o1, l1) # rs
      else if o1 + l1 < offset then (o1, l1) # set_range rs offset len
      else set_range rs (min o1 offset) (max (o1 + l1) (offset + len) - min o1 offset))"

text \<open>The bytes of a range set.\<close>

definition brs_bytes :: "ByteRangeSet \<Rightarrow> int set" where
  "brs_bytes rs = (\<Union>(o1, l1) \<in> set rs. {o1 ..< o1 + l1})"

subsection \<open>The region\<close>

record InstructionRange =
  ir_offset :: int
  ir_length :: int
  ir_longest_instruction :: int
  ir_longest_disasm :: nat
  ir_rel_y_offset :: int
  ir_y_lines :: int

record Instruction =
  i_offset :: int
  i_length :: int
  i_data :: "byte list"
  i_disasm :: string
  i_rel_y_offset :: int

text \<open>
  The fields of \<^verbatim>\<open>DisassemblyRegion\<close> that the region decoder uses, with \<^verbatim>\<open>d_offset\<close>,
  \<^verbatim>\<open>d_length\<close> of \<^verbatim>\<open>GenericDataRegion\<close> and \<^verbatim>\<open>y_lines\<close>, \<^verbatim>\<open>indent_final\<close> of \<^verbatim>\<open>Region\<close>.
\<close>

record DisassemblyRegion =
  d_offset :: int
  d_length :: int
  indent_final :: int
  y_lines :: int
  dirty :: ByteRangeSet
  processed :: "InstructionRange list"
  instructions :: "Instruction list"
  longest_instruction :: int
  longest_disasm :: nat

definition SOFT_IR_LIMIT :: int where
  "SOFT_IR_LIMIT = 10240"

definition INSTRUCTION_CACHE_LIMIT :: nat where
  "INSTRUCTION_CACHE_LIMIT = 250000"

text \<open>
  Modelled from the spec: the sentinel "go to previous/next region" return values,
  declared in a header that is not part of the source file. They are negative, so no
  offset of a document equals one.
\<close>

definition CURSOR_PREV_REGION :: int where
  "CURSOR_PREV_REGION = - 2"

definition CURSOR_NEXT_REGION :: int where
  "CURSOR_NEXT_REGION = - 3"

text \<open>
  Modelled from the spec: the flags of \<^verbatim>\<open>Region::StateFlag\<close>, declared in a header that
  is not part of the source file, are combinable; a state is the set of flags that are
  on, \<^verbatim>\<open>IDLE\<close> is no flag, and \<^verbatim>\<open>state |= flag\<close> inserts the flag.
\<close>

datatype StateFlag = PROCESSING | WIDTH_CHANGE | HEIGHT_CHANGE

definition IDLE :: "StateFlag set" where
  "IDLE = {}"

text \<open>The constructor: nothing processed, the whole range dirty.\<close>

definition new_region :: "int \<Rightarrow> int \<Rightarrow> int \<Rightarrow> DisassemblyRegion" where
  "new_region offset len indent =
     \<lparr>d_offset = offset, d_length = len, indent_final = indent, y_lines = 0,
      dirty = set_range [] offset len, processed = [], instructions = [],
      longest_instruction = 0, longest_disasm = 0\<rparr>"

definition unprocessed_offset :: "DisassemblyRegion \<Rightarrow> int" where
  "unprocessed_offset r =
     (if processed r = [] then d_offset r
      else ir_offset (last (processed r)) + ir_length (last (processed r)))"

definition unprocessed_bytes :: "DisassemblyRegion \<Rightarrow> int" where
  "unprocessed_bytes r = d_length r - (unprocessed_offset r - d_offset r)"

definition processed_lines :: "DisassemblyRegion \<Rightarrow> int" where
  "processed_lines r =
     (if processed r = [] then 0
      else ir_rel_y_offset (last (processed r)) + ir_y_lines (last (processed r)))"

definition max_bytes_per_line :: "DisassemblyRegion \<Rightarrow> int" where
  "max_bytes_per_line r = (if longest_instruction r > 0 then longest_instruction r else 8)"

subsection \<open>Cursor movement to the left and to the right\<close>

definition cursor_left_from :: "DisassemblyRegion \<Rightarrow> int \<Rightarrow> error + int" where
  "cursor_left_from r pos =
     (if \<not> pos \<ge> d_offset r then Inl AssertionFailed
      else if \<not> pos \<le> d_offset r + d_length r then Inl AssertionFailed
      else if pos > d_offset r then Inr (pos - 1)
      else Inr CURSOR_PREV_REGION)"

definition cursor_right_from :: "DisassemblyRegion \<Rightarrow> int \<Rightarrow> error + int" where
  "cursor_right_from r pos =
     (if \<not> pos \<ge> d_offset r then Inl AssertionFailed
      else if \<not> pos \<le> d_offset r + d_length r then Inl AssertionFailed
      else if pos + 1 < d_offset r + d_length r then Inr (pos + 1)
      else Inr CURSOR_NEXT_REGION)"

subsection \<open>One step of background processing\<close>

text \<open>The body of the decoding loop of \<^verbatim>\<open>check\<close>: it updates \<^verbatim>\<open>new_ir\<close> and \<^verbatim>\<open>state\<close>.\<close>

definition check_body ::
  "cs_insn \<Rightarrow> byte list \<Rightarrow> InstructionRange \<times> StateFlag set \<Rightarrow> InstructionRange \<times> StateFlag set" where
  "check_body insn bytes acc =
     (case acc of (new_ir, state) \<Rightarrow>
        let disasm_length = length (insn_mnemonic insn) + 1 + length (insn_op_str insn) in
        (new_ir\<lparr>ir_length := ir_length new_ir + int (insn_size insn),
                ir_longest_instruction := max (ir_longest_instruction new_ir) (int (insn_size insn)),
                ir_longest_disasm := max (ir_longest_disasm new_ir) disasm_length,
                ir_y_lines := ir_y_lines new_ir + 1\<rparr>,
         insert HEIGHT_CHANGE state))"

text \<open>
  \<^verbatim>\<open>check\<close> returns the state flags and the region as it leaves it. An exception of
  \<^verbatim>\<open>read_data\<close> is not caught in \<^verbatim>\<open>check\<close>: it leaves the function, as the result
  \<open>Inl\<close>, before any field of the region is written.
\<close>

definition check :: "csh \<Rightarrow> document \<Rightarrow> DisassemblyRegion \<Rightarrow> (error + StateFlag set) \<times> DisassemblyRegion" where
  "check disassembler doc r =
     (case dirty r of
        [] \<Rightarrow> (Inr IDLE, r)
      | first_dirty_range # _ \<Rightarrow>
          let process_base = fst first_dirty_range;
              process_len = min (snd first_dirty_range) SOFT_IR_LIMIT
          in (case read_data doc process_base process_len of
               Inl e \<Rightarrow> (Inl e, r)
             | Inr data \<Rightarrow>
                 let new_ir0 = \<lparr>ir_offset = process_base, ir_length = 0,
                                ir_longest_instruction = 0, ir_longest_disasm = 0,
                                ir_rel_y_offset =
                                  (if processed r = [] then 0
                                   else ir_rel_y_offset (last (processed r)) + ir_y_lines (last (processed r))),
                                ir_y_lines = 0\<rparr>;
                     looped = cs_while disassembler check_body data process_base (new_ir0, IDLE);
                     new_ir = fst looped;
                     state1 = snd looped
                 in if \<not> (processed r = []
                           \<or> ir_offset (last (processed r)) + ir_length (last (processed r)) = ir_offset new_ir)
                    then (Inl AssertionFailed, r)
                    else
                      let r1 = r\<lparr>processed := processed r @ [new_ir]\<rparr>;
                          wider = ir_longest_instruction new_ir > longest_instruction r1;
                          r2 = (if wider then r1\<lparr>longest_instruction := ir_longest_instruction new_ir\<rparr> else r1);
                          state2 = (if wider then insert WIDTH_CHANGE state1 else state1);
                          longer = ir_longest_disasm new_ir > longest_disasm r2;
                          r3 = (if longer then r2\<lparr>longest_disasm := ir_longest_disasm new_ir\<rparr> else r2);
                          state3 = (if longer then insert WIDTH_CHANGE state2 else state2);
                          r4 = r3\<lparr>dirty := clear_range (dirty r3) (ir_offset new_ir) (ir_length new_ir)\<rparr>;
                          state4 = (if \<not> brs_empty (dirty r4) then insert PROCESSING state3 else state3)
                      in (Inr state4, r4)))"

subsection \<open>The height of the region\<close>

text \<open>The division of C++ on \<^verbatim>\<open>int64_t\<close> truncates towards zero.\<close>

definition c_div :: "int \<Rightarrow> int \<Rightarrow> int" where
  "c_div a b = sgn a * sgn b * (\<bar>a\<bar> div \<bar>b\<bar>)"

definition calc_height :: "DisassemblyRegion \<Rightarrow> DisassemblyRegion" where
  "calc_height r =
     (let total_lines = foldl (\<lambda>sum ir. sum + ir_y_lines ir) 0 (processed r);
          up_bytes_per_line = max_bytes_per_line r;
          up_total = unprocessed_bytes r;
          up_lines = c_div (up_total + (up_bytes_per_line - 1)) up_bytes_per_line
      in r\<lparr>y_lines := total_lines + up_lines + indent_final r\<rparr>)"

subsection \<open>Looking up chunks and instructions\<close>

text \<open>
  \<^verbatim>\<open>std::upper_bound(first, last, v, comp)\<close> with \<^verbatim>\<open>comp(lhs, rhs) = lhs.key < rhs.key\<close>, as
  an index into the vector: the first position whose element has a key greater than
  \<open>v\<close>, in a range partitioned by that test (what the C++ standard asks of the caller).
\<close>

definition upper_bound :: "('a \<Rightarrow> int) \<Rightarrow> 'a list \<Rightarrow> int \<Rightarrow> nat" where
  "upper_bound key xs v = length (takeWhile (\<lambda>x. \<not> v < key x) xs)"

text \<open>\<open>None\<close> is the iterator \<^verbatim>\<open>processed.end()\<close>.\<close>

definition processed_by_offset :: "DisassemblyRegion \<Rightarrow> int \<Rightarrow> InstructionRange option" where
  "processed_by_offset r abs_offset =
     (let next_ir = upper_bound ir_offset (processed r) abs_offset in
      if next_ir = 0 then None
      else
        let ir = processed r ! (next_ir - 1) in
        if ir_offset ir \<le> abs_offset \<and> ir_offset ir + ir_length ir > abs_offset
        then Some ir else None)"

definition processed_by_line :: "DisassemblyRegion \<Rightarrow> int \<Rightarrow> InstructionRange option" where
  "processed_by_line r rel_line =
     (let next_ir = upper_bound ir_rel_y_offset (processed r) rel_line in
      if next_ir = 0 then None
      else
        let ir = processed r ! (next_ir - 1) in
        if ir_rel_y_offset ir \<le> rel_line \<and> ir_rel_y_offset ir + ir_y_lines ir > rel_line
        then Some ir else None)"

text \<open>
  The first part of \<^verbatim>\<open>instruction_by_offset\<close>: the search of the cache for the instruction
  that covers \<open>abs_offset\<close>.
\<close>

definition cache_find :: "Instruction list \<Rightarrow> int \<Rightarrow> Instruction option" where
  "cache_find cache abs_offset =
     (let next_i = upper_bound i_offset cache abs_offset in
      if next_i \<noteq> 0
      then
        let i = cache ! (next_i - 1) in
        if i_offset i \<le> abs_offset \<and> i_offset i + i_length i > abs_offset then Some i else None
      else None)"

text \<open>
  The body of the decoding loop of \<^verbatim>\<open>instruction_by_offset\<close>. \<^verbatim>\<open>snprintf\<close> into a buffer
  of 256 bytes keeps at most 255 characters of the mnemonic, a tab and the operands.
\<close>

definition format_disasm :: "cs_insn \<Rightarrow> string" where
  "format_disasm insn = take 255 (insn_mnemonic insn @ [CHR 0x09] @ insn_op_str insn)"

definition ibo_body :: "InstructionRange \<Rightarrow> cs_insn \<Rightarrow> byte list \<Rightarrow> Instruction list \<Rightarrow> Instruction list" where
  "ibo_body ir insn bytes new_instructions =
     new_instructions @
       [\<lparr>i_offset = insn_address insn, i_length = int (insn_size insn), i_data = bytes,
         i_disasm = format_disasm insn,
         i_rel_y_offset = ir_rel_y_offset ir + int (length new_instructions)\<rparr>]"

text \<open>
  The two assertions before the insertion. \<^verbatim>\<open>front()\<close> and \<^verbatim>\<open>back()\<close> of an empty vector
  are undefined; an assertion that evaluates one of them counts as failed.
\<close>

definition ibo_asserts :: "Instruction list \<Rightarrow> nat \<Rightarrow> Instruction list \<Rightarrow> bool" where
  "ibo_asserts cache next_i new_instructions =
     ((next_i = 0
        \<or> (new_instructions \<noteq> []
            \<and> i_offset (cache ! (next_i - 1)) + i_length (cache ! (next_i - 1))
                \<le> i_offset (hd new_instructions)))
      \<and> (next_i = length cache
        \<or> (new_instructions \<noteq> []
            \<and> i_offset (cache ! next_i)
                \<ge> i_offset (last new_instructions) + i_length (last new_instructions))))"

text \<open>
  The end of \<^verbatim>\<open>instruction_by_offset\<close>: the cache is cleared when it would exceed its
  limit, and the new instructions are inserted before \<open>next_i\<close>.
\<close>

definition cache_insert :: "Instruction list \<Rightarrow> nat \<Rightarrow> Instruction list \<Rightarrow> Instruction list" where
  "cache_insert cache next_i new_instructions =
     (if length cache + length new_instructions > INSTRUCTION_CACHE_LIMIT
      then new_instructions
      else take next_i cache @ new_instructions @ drop next_i cache)"

text \<open>
  \<^verbatim>\<open>instruction_by_offset\<close> returns the instruction its iterator points to (\<open>None\<close> for
  \<^verbatim>\<open>EMPTY_END\<close>) and the region as it leaves it. It calls itself after filling the cache;
  where that never ends, its value is \<open>None\<close>. The message written to \<^verbatim>\<open>stderr\<close> when
  \<^verbatim>\<open>read_data\<close> throws is not part of the state.
\<close>

partial_function (option) instruction_by_offset ::
  "csh \<Rightarrow> document \<Rightarrow> DisassemblyRegion \<Rightarrow> int \<Rightarrow> ((error + Instruction option) \<times> DisassemblyRegion) option" where
  "instruction_by_offset disassembler doc r abs_offset =
     (case cache_find (instructions r) abs_offset of
        Some i \<Rightarrow> Some (Inr (Some i), r)
      | None \<Rightarrow>
          (case processed_by_offset r abs_offset of
             None \<Rightarrow> Some (Inr None, r)
           | Some ir \<Rightarrow>
               (case read_data doc (ir_offset ir) (ir_length ir) of
                  Inl e \<Rightarrow> Some (Inr None, r)
                | Inr ir_data \<Rightarrow>
                    let next_i = upper_bound i_offset (instructions r) abs_offset;
                        new_instructions = cs_while disassembler (ibo_body ir) ir_data (ir_offset ir) []
                    in if \<not> ibo_asserts (instructions r) next_i new_instructions
                       then Some (Inl AssertionFailed, r)
                       else instruction_by_offset disassembler doc
                              (r\<lparr>instructions := cache_insert (instructions r) next_i new_instructions\<rparr>)
                              abs_offset)))"

declare instruction_by_offset.simps [code]

subsection \<open>Cursor movement by lines\<close>






subsection \<open>The live preview\<close>

text \<open>
  \<^verbatim>\<open>std::map<off_t, Instruction>\<close> is a list of entries in ascending order of their
  keys; \<^verbatim>\<open>insert\<close> leaves the map as it is when the key is present.
\<close>

record preview_instruction =
  pi_length :: int
  pi_disasm :: string

type_synonym instruction_map = "(int \<times> preview_instruction) list"

fun map_insert :: "int \<Rightarrow> preview_instruction \<Rightarrow> instruction_map \<Rightarrow> instruction_map" where
  "map_insert k v [] = [(k, v)]"
| "map_insert k v ((k', v') # m) =
     (if k < k' then (k, v) # (k', v') # m
      else if k = k' then (k', v') # m
      else (k', v') # map_insert k v m)"

definition map_find :: "instruction_map \<Rightarrow> int \<Rightarrow> preview_instruction option" where
  "map_find m k = map_of m k"

text \<open>\<^verbatim>\<open>lower_bound\<close>, as an index: the first entry whose key is not less than \<open>k\<close>.\<close>

definition lower_bound :: "instruction_map \<Rightarrow> int \<Rightarrow> nat" where
  "lower_bound m k = length (takeWhile (\<lambda>e. fst e < k) m)"

definition disassemble :: "csh \<Rightarrow> int \<Rightarrow> byte list \<Rightarrow> instruction_map" where
  "disassemble disassembler offset code =
     cs_while disassembler
       (\<lambda>insn bytes insns.
          map_insert (insn_address insn)
            \<lparr>pi_length = int (insn_size insn), pi_disasm = format_disasm insn\<rparr> insns)
       code offset []"

definition WINDOW_SIZE :: int where
  "WINDOW_SIZE = 256"

text \<open>
  Step 1 of \<^verbatim>\<open>update\<close>: the first offset from the start of the window up to the position
  whose disassembly has an instruction that starts at the position. The result is the
  variable \<^verbatim>\<open>instructions\<close> after the loop, empty when the loop did not break.
\<close>

function update_step1 :: "csh \<Rightarrow> byte list \<Rightarrow> int \<Rightarrow> int \<Rightarrow> nat \<Rightarrow> instruction_map" where
  "update_step1 disassembler data window_base position data_off =
     (if window_base + int data_off \<le> position \<and> data_off < length data
      then
        let i_instructions = disassemble disassembler (window_base + int data_off) (drop data_off data) in
        if map_find i_instructions position \<noteq> None then i_instructions
        else update_step1 disassembler data window_base position (Suc data_off)
      else [])"
  by pat_completeness auto
termination
  by (relation "measure (\<lambda>(disassembler, data, window_base, position, data_off). length data - data_off)")
     auto

text \<open>
  Step 2: the first offset whose disassembly passes the test of the source on
  \<^verbatim>\<open>lower_bound(position)\<close>.
\<close>

definition overlaps_position :: "instruction_map \<Rightarrow> int \<Rightarrow> bool" where
  "overlaps_position i_instructions position =
     (let ii = lower_bound i_instructions position in
      ii \<noteq> 0 \<and> ii \<noteq> length i_instructions
      \<and> fst (i_instructions ! (ii - 1)) + pi_length (snd (i_instructions ! (ii - 1))) > position)"

function update_step2 :: "csh \<Rightarrow> byte list \<Rightarrow> int \<Rightarrow> int \<Rightarrow> nat \<Rightarrow> instruction_map" where
  "update_step2 disassembler data window_base position data_off =
     (if window_base + int data_off \<le> position \<and> data_off < length data
      then
        let i_instructions = disassemble disassembler (window_base + int data_off) (drop data_off data) in
        if overlaps_position i_instructions position then i_instructions
        else update_step2 disassembler data window_base position (Suc data_off)
      else [])"
  by pat_completeness auto
termination
  by (relation "measure (\<lambda>(disassembler, data, window_base, position, data_off). length data - data_off)")
     auto

declare update_step1.simps [simp del] update_step2.simps [simp del]

text \<open>
  The listing of the \<^verbatim>\<open>CodeCtrl\<close>: its lines (offset, text, highlighted) and the line
  that is centred. \<^verbatim>\<open>update\<close> takes the visibility of the panel, the handle (\<open>None\<close> for
  the handle 0), the document and the position of the cursor.
\<close>

record listing =
  listing_lines :: "(int \<times> string \<times> bool) list"
  listing_centre :: nat

definition highlighted_line :: "instruction_map \<Rightarrow> int \<Rightarrow> nat" where
  "highlighted_line insns position =
     foldl (\<lambda>hl this_line.
              if fst (insns ! this_line) \<le> position
                 \<and> fst (insns ! this_line) + pi_length (snd (insns ! this_line)) > position
              then this_line else hl)
       0 [0 ..< length insns]"

definition update :: "bool \<Rightarrow> csh option \<Rightarrow> document \<Rightarrow> int \<Rightarrow> listing \<Rightarrow> listing" where
  "update is_visible disassembler document position assembly =
     (if \<not> is_visible then assembly
      else case disassembler of
        None \<Rightarrow> assembly\<lparr>listing_lines := [(0, ''<error>'', False)]\<rparr>
      | Some handle \<Rightarrow>
          let window_base = max (position - c_div WINDOW_SIZE 2) 0 in
          (case read_data document window_base WINDOW_SIZE of
             Inl e \<Rightarrow>
               assembly\<lparr>listing_lines :=
                 [(window_base, (case e of ReadError what \<Rightarrow> what | AssertionFailed \<Rightarrow> []), False)]\<rparr>
           | Inr data \<Rightarrow>
               let found1 = update_step1 handle data window_base position 0;
                   chosen =
                     (if found1 = [] then update_step2 handle data window_base position 0
                      else found1)
               in
               if chosen \<noteq> []
               then \<lparr>listing_lines =
                       map (\<lambda>(k, i). (k, pi_disasm i, k \<le> position \<and> k + pi_length i > position))
                         chosen,
                     listing_centre = highlighted_line chosen position\<rparr>
               else assembly\<lparr>listing_lines := [(position, ''<invalid instruction>'', True)]\<rparr>))"

section \<open>The states of a region\<close>

text \<open>
  The owner of a region calls \<^verbatim>\<open>check\<close> (a step) and the lookups, against the document
  as it is at the time of the call. A run is a list of such calls; its value is \<open>None\<close>
  when a lookup never returns. A call that fails leaves the region as it was.
\<close>

datatype region_call = Step | Lookup int

fun run :: "csh \<Rightarrow> (document \<times> region_call) list \<Rightarrow> DisassemblyRegion \<Rightarrow> DisassemblyRegion option" where
  "run h [] r = Some r"
| "run h ((doc, Step) # calls) r = run h calls (snd (check h doc r))"
| "run h ((doc, Lookup abs_offset) # calls) r =
     (case instruction_by_offset h doc r abs_offset of
        None \<Rightarrow> None
      | Some (res, r') \<Rightarrow> run h calls r')"

text \<open>
  Chunks that follow one another from an offset and a line on, and the invariant of a
  region: the chunks start at the base of the region, the dirty set is what lies behind
  the last chunk, and the two widths are the maxima over the chunks.
\<close>

fun chunks_from :: "int \<Rightarrow> int \<Rightarrow> InstructionRange list \<Rightarrow> bool" where
  "chunks_from off line [] = True"
| "chunks_from off line (c # cs) =
     (ir_offset c = off \<and> ir_rel_y_offset c = line \<and> 0 \<le> ir_length c \<and> 0 \<le> ir_y_lines c
      \<and> chunks_from (off + ir_length c) (line + ir_y_lines c) cs)"

definition region_inv :: "DisassemblyRegion \<Rightarrow> bool" where
  "region_inv r =
     (0 \<le> d_length r
      \<and> chunks_from (d_offset r) 0 (processed r)
      \<and> unprocessed_offset r \<le> d_offset r + d_length r
      \<and> dirty r = (if unprocessed_offset r < d_offset r + d_length r
                    then [(unprocessed_offset r, d_offset r + d_length r - unprocessed_offset r)]
                    else [])
      \<and> longest_instruction r = foldl max 0 (map ir_longest_instruction (processed r))
      \<and> longest_disasm r = foldl max 0 (map ir_longest_disasm (processed r)))"

definition chunks_pos :: "InstructionRange list \<Rightarrow> bool" where
  "chunks_pos cs = list_all (\<lambda>c. (0 < ir_longest_instruction c) = (0 < ir_y_lines c)) cs"

text \<open>The chunk that a step appends to a region that satisfies the invariant.\<close>

definition step_chunk :: "csh \<Rightarrow> document \<Rightarrow> DisassemblyRegion \<Rightarrow> InstructionRange" where
  "step_chunk h doc r =
     (let base = unprocessed_offset r;
          data = (case read_data doc base (min (d_offset r + d_length r - base) SOFT_IR_LIMIT) of
                    Inl e \<Rightarrow> [] | Inr data \<Rightarrow> data);
          xs = cs_insns h data base
      in \<lparr>ir_offset = base, ir_length = int (insns_size xs),
          ir_longest_instruction = foldl max 0 (map (\<lambda>(insn, bytes). int (insn_size insn)) xs),
          ir_longest_disasm = foldl max 0
            (map (\<lambda>(insn, bytes). length (insn_mnemonic insn) + 1 + length (insn_op_str insn)) xs),
          ir_rel_y_offset = processed_lines r, ir_y_lines = int (length xs)\<rparr>)"

subsection \<open>An example\<close>

text \<open>
  A small decoder in the manner of Capstone with \<^verbatim>\<open>CS_OPT_SKIPDATA\<close>: \<^verbatim>\<open>0x90\<close> is a
  one-byte instruction, \<^verbatim>\<open>0xB0\<close> with its operand a two-byte instruction, and any other
  byte is one byte of data. The document has four bytes; \<open>short_document\<close> is the
  document before its last byte was appended.
\<close>

definition example_handle :: csh where
  "example_handle code address =
     (case code of
        [] \<Rightarrow> None
      | b # rest \<Rightarrow>
          if b = 0x90 then Some (1, ''nop'', [])
          else if b = 0xB0 \<and> rest \<noteq> [] then Some (2, ''mov'', ''al'')
          else Some (1, ''.byte'', []))"

definition example_document :: document where
  "example_document = \<lparr>doc_contents = [0x90, 0xB0, 0x01, 0x07], doc_unreadable = (\<lambda>offset len. False)\<rparr>"

definition short_document :: document where
  "short_document = \<lparr>doc_contents = [0x90, 0xB0, 0x01], doc_unreadable = (\<lambda>offset len. False)\<rparr>"

text \<open>The region of the four bytes after one step on the short document.\<close>

definition example_region1 :: DisassemblyRegion where
  "example_region1 =
     \<lparr>d_offset = 0, d_length = 4, indent_final = 0, y_lines = 0,
      dirty = [(3, 1)],
      processed =
        [\<lparr>ir_offset = 0, ir_length = 3, ir_longest_instruction = 2,
           ir_longest_disasm = 6, ir_rel_y_offset = 0, ir_y_lines = 2\<rparr>],
      instructions = [], longest_instruction = 2, longest_disasm = 6\<rparr>"

text \<open>The region after a second step, on the whole document.\<close>

definition example_region2 :: DisassemblyRegion where
  "example_region2 =
     \<lparr>d_offset = 0, d_length = 4, indent_final = 0, y_lines = 0,
      dirty = [],
      processed =
        [\<lparr>ir_offset = 0, ir_length = 3, ir_longest_instruction = 2,
           ir_longest_disasm = 6, ir_rel_y_offset = 0, ir_y_lines = 2\<rparr>,
         \<lparr>ir_offset = 3, ir_length = 1, ir_longest_instruction = 1,
           ir_longest_disasm = 6, ir_rel_y_offset = 2, ir_y_lines = 1\<rparr>],
      instructions = [], longest_instruction = 2, longest_disasm = 6\<rparr>"

subsection \<open>The order of the cache\<close>

text \<open>
  A cache is in offset order when every instruction has a positive length and ends
  before the next one starts. \<open>instrs_of\<close> is the vector \<^verbatim>\<open>new_instructions\<close> that the
  decoding loop of \<^verbatim>\<open>instruction_by_offset\<close> builds from the instructions it visits, and
  \<open>insns_from\<close> says that instructions follow one another from an address on.
\<close>

definition cache_ordered :: "Instruction list \<Rightarrow> bool" where
  "cache_ordered cache =
     (sorted_wrt (\<lambda>a b. i_offset a + i_length a \<le> i_offset b) cache
      \<and> list_all (\<lambda>i. 0 < i_length i) cache)"

fun instrs_of :: "InstructionRange \<Rightarrow> nat \<Rightarrow> (cs_insn \<times> byte list) list \<Rightarrow> Instruction list" where
  "instrs_of ir n [] = []"
| "instrs_of ir n ((insn, bytes) # xs) =
     \<lparr>i_offset = insn_address insn, i_length = int (insn_size insn), i_data = bytes,
      i_disasm = format_disasm insn, i_rel_y_offset = ir_rel_y_offset ir + int n\<rparr>
     # instrs_of ir (Suc n) xs"

fun insns_from :: "int \<Rightarrow> (cs_insn \<times> byte list) list \<Rightarrow> bool" where
  "insns_from a [] = True"
| "insns_from a ((insn, bytes) # xs) =
     (insn_address insn = a \<and> 0 < insn_size insn \<and> insns_from (a + int (insn_size insn)) xs)"

subsection \<open>More of the example\<close>

text \<open>
  The document with one offset at which every read fails, the example region after a
  lookup of offset 3 filled its cache, and its first chunk with the instructions decoded
  from it.
\<close>

definition unreadable_at :: "int \<Rightarrow> document" where
  "unreadable_at k =
     \<lparr>doc_contents = [0x90, 0xB0, 0x01, 0x07], doc_unreadable = (\<lambda>offset len. offset = k)\<rparr>"

definition example_region3 :: DisassemblyRegion where
  "example_region3 =
     example_region2\<lparr>instructions :=
        [\<lparr>i_offset = 3, i_length = 1, i_data = [0x07], i_disasm = ''.byte'' @ [CHR 0x09],
          i_rel_y_offset = 2\<rparr>]\<rparr>"

definition example_chunk1 :: InstructionRange where
  "example_chunk1 = \<lparr>ir_offset = 0, ir_length = 3, ir_longest_instruction = 2,
           ir_longest_disasm = 6, ir_rel_y_offset = 0, ir_y_lines = 2\<rparr>"

definition example_batch1 :: "Instruction list" where
  "example_batch1 =
     [\<lparr>i_offset = 0, i_length = 1, i_data = [0x90], i_disasm = ''nop'' @ [CHR 0x09], i_rel_y_offset = 0\<rparr>,
      \<lparr>i_offset = 1, i_length = 2, i_data = [0xB0, 0x01], i_disasm = ''mov'' @ [CHR 0x09] @ ''al'',
        i_rel_y_offset = 1\<rparr>]"

subsection \<open>The cache and the chunks\<close>

text \<open>
  \<open>chunk_batch\<close> is the vector \<^verbatim>\<open>new_instructions\<close> that the on-demand decode of a chunk
  yields over a document (empty when the read fails). In \<open>cache_inv\<close> every instruction
  of the cache is of the batch of a chunk. A handle is \<open>prefix_stable\<close> when the
  instruction it decodes does not depend on the bytes behind the instruction. A chunk is
  tiled when the instructions decoded from its bytes take its length, and in
  \<open>chunks_cached\<close> the cache is in offset order, all chunks are tiled, and the cache
  holds the batch of a chunk as a whole or not at all.
\<close>

definition chunk_batch :: "csh \<Rightarrow> document \<Rightarrow> InstructionRange \<Rightarrow> Instruction list" where
  "chunk_batch h doc ir =
     (case read_data doc (ir_offset ir) (ir_length ir) of
        Inl e \<Rightarrow> []
      | Inr ir_data \<Rightarrow> cs_while h (ibo_body ir) ir_data (ir_offset ir) [])"

definition cache_inv :: "csh \<Rightarrow> document \<Rightarrow> DisassemblyRegion \<Rightarrow> bool" where
  "cache_inv h doc r =
     (\<forall>x \<in> set (instructions r). \<exists>c \<in> set (processed r). x \<in> set (chunk_batch h doc c))"

definition prefix_stable :: "csh \<Rightarrow> bool" where
  "prefix_stable h =
     (\<forall>code address sz mn ops n.
        h code address = Some (sz, mn, ops) \<and> 0 < sz \<and> sz \<le> length code \<and> sz \<le> n
        \<longrightarrow> h (take n code) address = Some (sz, mn, ops))"

definition chunk_tiled :: "csh \<Rightarrow> document \<Rightarrow> InstructionRange \<Rightarrow> bool" where
  "chunk_tiled h doc c =
     (case read_data doc (ir_offset c) (ir_length c) of
        Inl e \<Rightarrow> True
      | Inr data \<Rightarrow> int (insns_size (cs_insns h data (ir_offset c))) = ir_length c)"

definition chunks_cached :: "csh \<Rightarrow> document \<Rightarrow> DisassemblyRegion \<Rightarrow> bool" where
  "chunks_cached h doc r =
     (cache_ordered (instructions r)
      \<and> (\<forall>c \<in> set (processed r).
            chunk_tiled h doc c
            \<and> (set (chunk_batch h doc c) \<inter> set (instructions r) \<noteq> {}
                 \<longrightarrow> set (chunk_batch h doc c) \<subseteq> set (instructions r))))"



definition example_region5 :: DisassemblyRegion where
  "example_region5 =
     \<lparr>d_offset = 0, d_length = 4, indent_final = 0, y_lines = 0,
      dirty = [],
      processed =
        [\<lparr>ir_offset = 0, ir_length = 4, ir_longest_instruction = 2,
           ir_longest_disasm = 6, ir_rel_y_offset = 0, ir_y_lines = 3\<rparr>],
      instructions =
        [\<lparr>i_offset = 0, i_length = 1, i_data = [0x90], i_disasm = ''nop'' @ [CHR 0x09], i_rel_y_offset = 0\<rparr>,
         \<lparr>i_offset = 1, i_length = 2, i_data = [0xB0, 0x01], i_disasm = ''mov'' @ [CHR 0x09] @ ''al'',
           i_rel_y_offset = 1\<rparr>,
         \<lparr>i_offset = 3, i_length = 1, i_data = [0x07], i_disasm = ''.byte'' @ [CHR 0x09],
           i_rel_y_offset = 2\<rparr>],
      longest_instruction = 2, longest_disasm = 6\<rparr>"

subsection \<open>An example for the live preview\<close>

text \<open>
  The same decoder without \<^verbatim>\<open>CS_OPT_SKIPDATA\<close>, as the live preview uses it: a byte that
  starts no instruction stops the decoding. The document is the two bytes of one
  instruction.
\<close>

definition preview_handle :: csh where
  "preview_handle code address =
     (case code of
        [] \<Rightarrow> None
      | b # rest \<Rightarrow>
          if b = 0x90 then Some (1, ''nop'', [])
          else if b = 0xB0 \<and> rest \<noteq> [] then Some (2, ''mov'', ''al'')
          else None)"

definition preview_document :: document where
  "preview_document = \<lparr>doc_contents = [0xB0, 0x01], doc_unreadable = (\<lambda>offset len. False)\<rparr>"

subsection \<open>Whole batches\<close>

text \<open>
  In \<open>cache_whole\<close> the cache is in offset order and holds the batch of a chunk as a whole
  or not at all, whether the chunks are tiled or not.
\<close>

definition cache_whole :: "csh \<Rightarrow> document \<Rightarrow> DisassemblyRegion \<Rightarrow> bool" where
  "cache_whole h doc r =
     (cache_ordered (instructions r)
      \<and> (\<forall>c \<in> set (processed r).
            set (chunk_batch h doc c) \<inter> set (instructions r) \<noteq> {}
              \<longrightarrow> set (chunk_batch h doc c) \<subseteq> set (instructions r)))"

subsection \<open>A full cache\<close>

text \<open>
  A document of 250003 bytes, the three bytes of the example followed by bytes of data,
  and a region over it whose chunks are all processed: the first chunk of the example,
  recorded when the document had its first three bytes only, and 25 chunks of data, 24 of
  \<^verbatim>\<open>SOFT_IR_LIMIT\<close> bytes and one of 4240. The cache holds the 250000 instructions of
  the chunks of data, as lookups in these chunks leave them, and not the batch of the
  first chunk.
\<close>

definition full_cache :: "Instruction list" where
  "full_cache =
     map (\<lambda>n. \<lparr>i_offset = 3 + int n, i_length = 1, i_data = [0x07], i_disasm = ''.byte'' @ [CHR 0x09],
               i_rel_y_offset = 2 + int n\<rparr>) [0..<250000]"

definition full_document :: document where
  "full_document =
     \<lparr>doc_contents = [0x90, 0xB0, 0x01] @ replicate 250000 0x07, doc_unreadable = (\<lambda>offset len. False)\<rparr>"

definition full_region :: DisassemblyRegion where
  "full_region =
     \<lparr>d_offset = 0, d_length = 250003, indent_final = 0, y_lines = 0,
      dirty = [],
      processed =
        example_chunk1 #
        map (\<lambda>n. \<lparr>ir_offset = 3 + 10240 * int n, ir_length = (if n < 24 then 10240 else 4240),
                  ir_longest_instruction = 1, ir_longest_disasm = 6,
                  ir_rel_y_offset = 2 + 10240 * int n,
                  ir_y_lines = (if n < 24 then 10240 else 4240)\<rparr>) [0..<25],
      instructions = full_cache, longest_instruction = 2, longest_disasm = 6\<rparr>"

subsection \<open>A decoder that looks ahead\<close>

text \<open>
  A handle that decodes \<^verbatim>\<open>0x90\<close> only when another byte follows it, a document of two such
  bytes, and the region over the document after one step: the step decodes the first
  byte, stops at the second, and records a chunk of one byte.
\<close>

definition lookahead_handle :: csh where
  "lookahead_handle code address =
     (case code of
        b # b' # rest \<Rightarrow> if b = 0x90 then Some (1, ''nop'', []) else None
      | _ \<Rightarrow> None)"

definition nop_document :: document where
  "nop_document = \<lparr>doc_contents = [0x90, 0x90], doc_unreadable = (\<lambda>offset len. False)\<rparr>"

definition lookahead_region :: DisassemblyRegion where
  "lookahead_region =
     \<lparr>d_offset = 0, d_length = 2, indent_final = 0, y_lines = 0,
      dirty = [(1, 1)],
      processed =
        [\<lparr>ir_offset = 0, ir_length = 1, ir_longest_instruction = 1,
           ir_longest_disasm = 4, ir_rel_y_offset = 0, ir_y_lines = 1\<rparr>],
      instructions = [], longest_instruction = 1, longest_disasm = 4\<rparr>"

section \<open>Properties\<close>

subsection \<open>The decoding loop and the invariant of a region\<close>

lemma cs_while_foldl:
  "cs_while handle body code address acc
     = foldl (\<lambda>a (insn, bytes). body insn bytes a) acc (cs_insns handle code address)"
proof (induction handle body code address acc rule: cs_while.induct)
  case (1 handle body code address acc)
  show ?case
  proof (cases "cs_disasm_iter handle code address")
    case None
    then show ?thesis by (simp add: cs_while.simps [of handle body code] cs_insns.simps [of handle code])
  next
    case (Some t)
    obtain insn code' address' where t: "t = (insn, code', address')" by (cases t)
    from 1 [OF Some [unfolded t] refl refl] Some t show ?thesis
      by (simp add: cs_while.simps [of handle body code] cs_insns.simps [of handle code])
  qed
qed

lemma insns_size_simps [simp]:
  "insns_size [] = 0"
  "insns_size (x # xs) = insn_size (fst x) + insns_size xs"
  by (simp_all add: insns_size_def split_beta)

lemma cs_insns_size_le: "insns_size (cs_insns handle code address) \<le> length code"
proof (induction handle code address rule: cs_insns.induct)
  case (1 handle code address)
  show ?case
  proof (cases "cs_disasm_iter handle code address")
    case None
    then show ?thesis by (simp add: cs_insns.simps [of handle code])
  next
    case (Some t)
    obtain insn code' address' where t: "t = (insn, code', address')" by (cases t)
    have "insn_size insn \<le> length code" "code' = drop (insn_size insn) code"
      using Some t by (auto simp: cs_disasm_iter_def split: option.splits if_splits)
    with 1 [OF Some [unfolded t] refl refl] Some t show ?thesis
      by (simp add: cs_insns.simps [of handle code])
  qed
qed

lemma same_region: "\<exists>cache. r = r\<lparr>instructions := cache\<rparr>"
  by (rule exI [of _ "instructions r"]) simp

lemma ibo_induct [consumes 1, case_names hit no_chunk read_failed assert_failed refill]:
  assumes ret: "instruction_by_offset h doc r0 abs_offset = Some y0"
    and hit: "\<And>r i. cache_find (instructions r) abs_offset = Some i \<Longrightarrow> P r (Inr (Some i), r)"
    and no_chunk: "\<And>r. cache_find (instructions r) abs_offset = None \<Longrightarrow>
                     processed_by_offset r abs_offset = None \<Longrightarrow> P r (Inr None, r)"
    and read_failed: "\<And>r ir e. cache_find (instructions r) abs_offset = None \<Longrightarrow>
                     processed_by_offset r abs_offset = Some ir \<Longrightarrow>
                     read_data doc (ir_offset ir) (ir_length ir) = Inl e \<Longrightarrow> P r (Inr None, r)"
    and assert_failed: "\<And>r ir ir_data. cache_find (instructions r) abs_offset = None \<Longrightarrow>
                     processed_by_offset r abs_offset = Some ir \<Longrightarrow>
                     read_data doc (ir_offset ir) (ir_length ir) = Inr ir_data \<Longrightarrow>
                     \<not> ibo_asserts (instructions r) (upper_bound i_offset (instructions r) abs_offset)
                          (cs_while h (ibo_body ir) ir_data (ir_offset ir) []) \<Longrightarrow>
                     P r (Inl AssertionFailed, r)"
    and refill: "\<And>r ir ir_data y. cache_find (instructions r) abs_offset = None \<Longrightarrow>
                     processed_by_offset r abs_offset = Some ir \<Longrightarrow>
                     read_data doc (ir_offset ir) (ir_length ir) = Inr ir_data \<Longrightarrow>
                     ibo_asserts (instructions r) (upper_bound i_offset (instructions r) abs_offset)
                          (cs_while h (ibo_body ir) ir_data (ir_offset ir) []) \<Longrightarrow>
                     instruction_by_offset h doc
                       (r\<lparr>instructions := cache_insert (instructions r)
                            (upper_bound i_offset (instructions r) abs_offset)
                            (cs_while h (ibo_body ir) ir_data (ir_offset ir) [])\<rparr>) abs_offset = Some y \<Longrightarrow>
                     P (r\<lparr>instructions := cache_insert (instructions r)
                            (upper_bound i_offset (instructions r) abs_offset)
                            (cs_while h (ibo_body ir) ir_data (ir_offset ir) [])\<rparr>) y \<Longrightarrow>
                     P r y"
  shows "P r0 y0"
proof -
  have "h' = h \<and> doc' = doc \<and> o' = abs_offset \<longrightarrow>
          instruction_by_offset h doc r abs_offset = Some y \<and> P r y"
    if "instruction_by_offset h' doc' r o' = Some y" for h' doc' r o' y
  proof (rule instruction_by_offset.raw_induct
           [where P = "\<lambda>h' doc' r o' y. h' = h \<and> doc' = doc \<and> o' = abs_offset \<longrightarrow>
                          instruction_by_offset h doc r abs_offset = Some y \<and> P r y", OF _ that],
         goal_cases)
    case (1 f h' doc' r o' y)
    show ?case
    proof
      assume e: "h' = h \<and> doc' = doc \<and> o' = abs_offset"
      note body = 1(2) [unfolded conjunct1 [OF e] conjunct1 [OF conjunct2 [OF e]] conjunct2 [OF conjunct2 [OF e]]]
      note IH = 1(1) [of h doc _ abs_offset, THEN mp, OF _ conjI [OF refl conjI [OF refl refl]]]
      show "instruction_by_offset h doc r abs_offset = Some y \<and> P r y"
      proof (cases "cache_find (instructions r) abs_offset")
        case (Some i)
        with body hit [OF Some] show ?thesis
          by (auto simp: instruction_by_offset.simps [of h doc r])
      next
        case None
        note miss = None
        show ?thesis
        proof (cases "processed_by_offset r abs_offset")
          case None
          with body miss no_chunk [OF miss None] show ?thesis
            by (auto simp: instruction_by_offset.simps [of h doc r])
        next
          case (Some ir)
          show ?thesis
          proof (cases "read_data doc (ir_offset ir) (ir_length ir)")
            case (Inl e)
            with body miss Some read_failed [OF miss Some Inl] show ?thesis
              by (auto simp: instruction_by_offset.simps [of h doc r])
          next
            case (Inr ir_data)
            show ?thesis
            proof (cases "ibo_asserts (instructions r) (upper_bound i_offset (instructions r) abs_offset)
                          (cs_while h (ibo_body ir) ir_data (ir_offset ir) [])")
              case False
              with body miss Some Inr assert_failed [OF miss Some Inr False] show ?thesis
                by (auto simp: instruction_by_offset.simps [of h doc r] Let_def)
            next
              case True
              let ?r' = "r\<lparr>instructions := cache_insert (instructions r)
                            (upper_bound i_offset (instructions r) abs_offset)
                            (cs_while h (ibo_body ir) ir_data (ir_offset ir) [])\<rparr>"
              from body miss Some Inr True have "f h doc ?r' abs_offset = Some y"
                by (simp add: Let_def)
              from IH [OF this] have rec: "instruction_by_offset h doc ?r' abs_offset = Some y" and p: "P ?r' y"
                by simp_all
              from rec miss Some Inr True have "instruction_by_offset h doc r abs_offset = Some y"
                by (simp add: instruction_by_offset.simps [of h doc r] Let_def)
              with refill [OF miss Some Inr True rec p] show ?thesis by simp
            qed
          qed
        qed
      qed
    qed
  qed
  from this [OF ret] show ?thesis by simp
qed

lemma ibo_only_cache:
  assumes "instruction_by_offset h doc r abs_offset = Some y"
  shows "\<exists>cache. snd y = r\<lparr>instructions := cache\<rparr>"
  using assms
proof (induction rule: ibo_induct)
  case (refill r ir ir_data y)
  then show ?case by auto
qed (simp_all add: same_region)

lemma check_loop_fields:
  "foldl (\<lambda>a (insn, bytes). check_body insn bytes a) (ir, st) xs = (ir', st') \<Longrightarrow>
     ir_offset ir' = ir_offset ir \<and> ir_rel_y_offset ir' = ir_rel_y_offset ir
     \<and> ir_length ir' = ir_length ir + int (insns_size xs)
     \<and> ir_y_lines ir' = ir_y_lines ir + int (length xs)
     \<and> ir_longest_instruction ir' = foldl max (ir_longest_instruction ir) (map (\<lambda>(insn, bytes). int (insn_size insn)) xs)
     \<and> ir_longest_disasm ir' = foldl max (ir_longest_disasm ir)
           (map (\<lambda>(insn, bytes). length (insn_mnemonic insn) + 1 + length (insn_op_str insn)) xs)
     \<and> st' = (if xs = [] then st else insert HEIGHT_CHANGE st)"
proof (induction xs arbitrary: ir st)
  case Nil
  then show ?case by simp
next
  case (Cons x xs)
  obtain insn bytes where x: "x = (insn, bytes)" by (cases x)
  obtain ir1 st1 where b: "check_body insn bytes (ir, st) = (ir1, st1)" by (cases "check_body insn bytes (ir, st)")
  from Cons.prems x b have "foldl (\<lambda>a (insn, bytes). check_body insn bytes a) (ir1, st1) xs = (ir', st')"
    by simp
  from Cons.IH [OF this] b x show ?case
    by (auto simp: check_body_def Let_def)
qed


lemma chunks_from_append:
  "chunks_from off line (cs @ ds) =
     (chunks_from off line cs
      \<and> chunks_from (off + sum_list (map ir_length cs)) (line + sum_list (map ir_y_lines cs)) ds)"
  by (induction cs arbitrary: off line) (auto simp: add.assoc)

lemma chunks_from_last:
  "chunks_from off line cs \<Longrightarrow> cs \<noteq> [] \<Longrightarrow>
     ir_offset (last cs) + ir_length (last cs) = off + sum_list (map ir_length cs)
     \<and> ir_rel_y_offset (last cs) + ir_y_lines (last cs) = line + sum_list (map ir_y_lines cs)"
  by (induction cs arbitrary: off line) (auto simp: add.assoc)

lemma region_inv_new: "0 \<le> len \<Longrightarrow> region_inv (new_region offset len indent)"
  by (simp add: region_inv_def new_region_def unprocessed_offset_def)

lemma read_data_length: "read_data doc offset n = Inr data \<Longrightarrow> int (length data) \<le> n"
  by (auto simp: read_data_def split: if_splits)

lemma check_step:
  assumes inv: "region_inv r" and d: "dirty r \<noteq> []"
    and rd: "read_data doc (unprocessed_offset r)
               (min (d_offset r + d_length r - unprocessed_offset r) SOFT_IR_LIMIT) = Inr data"
  shows "check h doc r =
           (Inr ((if cs_insns h data (unprocessed_offset r) = [] then {} else {HEIGHT_CHANGE})
                 \<union> (if ir_longest_instruction (step_chunk h doc r) > longest_instruction r
                       \<or> ir_longest_disasm (step_chunk h doc r) > longest_disasm r then {WIDTH_CHANGE} else {})
                 \<union> (if unprocessed_offset r + ir_length (step_chunk h doc r) < d_offset r + d_length r
                      then {PROCESSING} else {})),
            r\<lparr>processed := processed r @ [step_chunk h doc r],
              longest_instruction := max (longest_instruction r) (ir_longest_instruction (step_chunk h doc r)),
              longest_disasm := max (longest_disasm r) (ir_longest_disasm (step_chunk h doc r)),
              dirty := (if unprocessed_offset r + ir_length (step_chunk h doc r) < d_offset r + d_length r
                        then [(unprocessed_offset r + ir_length (step_chunk h doc r),
                               d_offset r + d_length r - (unprocessed_offset r + ir_length (step_chunk h doc r)))]
                        else [])\<rparr>)"
proof -
  let ?base = "unprocessed_offset r"
  let ?end = "d_offset r + d_length r"
  let ?xs = "cs_insns h data ?base"
  from inv d have dr: "dirty r = [(?base, ?end - ?base)]" and lt: "?base < ?end"
    by (auto simp: region_inv_def split: if_splits)
  obtain ir' st' where loop: "cs_while h check_body data ?base
      (\<lparr>ir_offset = ?base, ir_length = 0, ir_longest_instruction = 0, ir_longest_disasm = 0,
        ir_rel_y_offset = (if processed r = [] then 0
                           else ir_rel_y_offset (last (processed r)) + ir_y_lines (last (processed r))),
        ir_y_lines = 0\<rparr>, IDLE) = (ir', st')"
    by (cases "cs_while h check_body data ?base
      (\<lparr>ir_offset = ?base, ir_length = 0, ir_longest_instruction = 0, ir_longest_disasm = 0,
        ir_rel_y_offset = (if processed r = [] then 0
                           else ir_rel_y_offset (last (processed r)) + ir_y_lines (last (processed r))),
        ir_y_lines = 0\<rparr>, IDLE)")
  note f = check_loop_fields [OF loop [unfolded cs_while_foldl]]
  have ir': "ir' = step_chunk h doc r"
    using f rd by (cases ir') (auto simp: step_chunk_def processed_lines_def Let_def)
  have st': "st' = (if ?xs = [] then {} else {HEIGHT_CHANGE})"
    using f by (simp add: IDLE_def)
  have le: "ir_length ir' \<le> ?end - ?base"
    using f cs_insns_size_le [of h data ?base] read_data_length [OF rd] by simp
  have nn: "0 \<le> ir_length ir'" using f by simp
  have cl: "clear_range [(?base, ?end - ?base)] ?base (ir_length ir') =
              (if ?base + ir_length ir' < ?end then [(?base + ir_length ir', ?end - (?base + ir_length ir'))] else [])"
    using le nn lt by (auto simp: min_def max_def)
  have off: "ir_offset ir' = ?base" using f by simp
  have wid: "longest_instruction r < ir_longest_instruction ir' \<Longrightarrow>
               max (longest_instruction r) (ir_longest_instruction ir') = ir_longest_instruction ir'"
           "\<not> longest_instruction r < ir_longest_instruction ir' \<Longrightarrow>
               max (longest_instruction r) (ir_longest_instruction ir') = longest_instruction r"
           "longest_disasm r < ir_longest_disasm ir' \<Longrightarrow>
               max (longest_disasm r) (ir_longest_disasm ir') = ir_longest_disasm ir'"
           "\<not> longest_disasm r < ir_longest_disasm ir' \<Longrightarrow>
               max (longest_disasm r) (ir_longest_disasm ir') = longest_disasm r"
    by (simp_all add: max_def)
  have asrt: "processed r = [] \<or> ir_offset (last (processed r)) + ir_length (last (processed r)) = ir_offset ir'"
    using off by (simp add: unprocessed_offset_def)
  show ?thesis
    unfolding ir' [symmetric]
    apply (simp only: check_def dr list.case Let_def fst_conv snd_conv rd sum.case loop asrt
             if_True if_False not_True_eq_False not_False_eq_True)
    apply (auto simp add: dr cl off st' brs_empty_def wid IDLE_def simp del: clear_range.simps)
    done
qed

lemma check_cases:
  assumes inv: "region_inv r"
  obtains (idle) "dirty r = []" "check h doc r = (Inr IDLE, r)"
  | (failed) e where "dirty r \<noteq> []"
       "read_data doc (unprocessed_offset r)
          (min (d_offset r + d_length r - unprocessed_offset r) SOFT_IR_LIMIT) = Inl e"
       "check h doc r = (Inl e, r)"
  | (stepped) data where "dirty r \<noteq> []"
       "read_data doc (unprocessed_offset r)
          (min (d_offset r + d_length r - unprocessed_offset r) SOFT_IR_LIMIT) = Inr data"
proof (cases "dirty r = []")
  case True
  then show ?thesis using idle by (simp add: check_def)
next
  case False
  with inv have dr: "dirty r = [(unprocessed_offset r, d_offset r + d_length r - unprocessed_offset r)]"
    by (auto simp: region_inv_def split: if_splits)
  show ?thesis
  proof (cases "read_data doc (unprocessed_offset r)
          (min (d_offset r + d_length r - unprocessed_offset r) SOFT_IR_LIMIT)")
    case (Inl e)
    then have "check h doc r = (Inl e, r)" by (simp add: check_def dr)
    with False Inl show ?thesis using failed by blast
  next
    case (Inr data)
    with False show ?thesis using stepped by blast
  qed
qed

lemma cs_insns_sizes_pos: "(insn, bytes) \<in> set (cs_insns h code address) \<Longrightarrow> 0 < insn_size insn"
proof (induction h code address rule: cs_insns.induct)
  case (1 handle code address)
  show ?case
  proof (cases "cs_disasm_iter handle code address")
    case None
    with 1(2) show ?thesis by (simp add: cs_insns.simps [of handle code])
  next
    case (Some t)
    obtain insn' code' address' where t: "t = (insn', code', address')" by (cases t)
    have "0 < insn_size insn'"
      using Some t by (auto simp: cs_disasm_iter_def split: option.splits if_splits)
    with 1(1) [OF Some [unfolded t] refl refl] 1(2) Some t show ?thesis
      by (auto simp: cs_insns.simps [of handle code])
  qed
qed

lemma foldl_max_pos:
  "(0 < foldl max (0::int) (map f xs)) = (\<exists>x \<in> set xs. 0 < f x)"
proof (induction xs rule: rev_induct)
  case Nil
  then show ?case by simp
next
  case (snoc x xs)
  then show ?case by (auto simp: max_def)
qed

lemma step_chunk_pos:
  "(0 < ir_longest_instruction (step_chunk h doc r)) = (0 < ir_y_lines (step_chunk h doc r))"
proof -
  have "xs \<noteq> [] \<Longrightarrow> (\<And>insn bytes. (insn, bytes) \<in> set xs \<Longrightarrow> 0 < insn_size insn)
          \<Longrightarrow> \<exists>x \<in> set xs. 0 < (case x of (insn, bytes) \<Rightarrow> int (insn_size insn))"
    for xs :: "(cs_insn \<times> byte list) list"
    by (cases xs) force+
  then show ?thesis
    by (auto simp: step_chunk_def Let_def foldl_max_pos dest: cs_insns_sizes_pos)
qed

lemma check_inv:
  assumes inv: "region_inv r"
  shows "region_inv (snd (check h doc r))
         \<and> (chunks_pos (processed r) \<longrightarrow> chunks_pos (processed (snd (check h doc r))))"
proof (rule check_cases [OF inv, where doc = doc and h = h], goal_cases)
  case 1
  with inv show ?thesis by simp
next
  case (2 e)
  with inv show ?thesis by simp
next
  case stepped: (3 data)
  let ?c = "step_chunk h doc r"
  have len: "0 \<le> ir_length ?c" "0 \<le> ir_y_lines ?c" "ir_offset ?c = unprocessed_offset r"
    "ir_rel_y_offset ?c = processed_lines r"
    by (simp_all add: step_chunk_def Let_def)
  have le: "unprocessed_offset r + ir_length ?c \<le> d_offset r + d_length r"
    using cs_insns_size_le [of h data "unprocessed_offset r"] read_data_length [OF stepped(2)] stepped(2)
    by (simp add: step_chunk_def Let_def)
  have fr: "unprocessed_offset r = d_offset r + sum_list (map ir_length (processed r))"
       "processed_lines r = sum_list (map ir_y_lines (processed r))"
    using inv chunks_from_last [of "d_offset r" 0 "processed r"]
    by (auto simp: region_inv_def unprocessed_offset_def processed_lines_def)
  show ?thesis
    using inv len le fr
    apply (simp add: check_step [OF inv stepped(1) stepped(2)])
    apply (simp add: region_inv_def chunks_from_append unprocessed_offset_def chunks_pos_def step_chunk_pos)
    done
qed

lemma region_inv_cache [simp]: "region_inv (r\<lparr>instructions := cache\<rparr>) = region_inv r"
  by (simp add: region_inv_def unprocessed_offset_def)

lemma run_inv:
  assumes "run h calls r = Some r'" and "region_inv r" and "chunks_pos (processed r)"
  shows "region_inv r' \<and> chunks_pos (processed r')"
  using assms
proof (induction h calls r rule: run.induct)
  case (1 h r)
  then show ?case by simp
next
  case (2 h doc calls r)
  then show ?case using check_inv [of r h doc] by simp
next
  case (3 h doc abs_offset calls r)
  from 3(2) obtain res r1 where l: "instruction_by_offset h doc r abs_offset = Some (res, r1)"
    and rest: "run h calls r1 = Some r'"
    by (auto split: option.splits)
  from ibo_only_cache [OF l] obtain cache where r1: "r1 = r\<lparr>instructions := cache\<rparr>" by auto
  have "region_inv r1" "chunks_pos (processed r1)"
    using 3(3,4) by (simp_all add: r1)
  with 3(1) [OF l refl rest] show ?case by simp
qed

lemma run_new_inv:
  assumes "0 \<le> len" and "run h calls (new_region offset len indent) = Some r"
  shows "region_inv r" and "chunks_pos (processed r)" and "d_offset r = offset" and "d_length r = len"
    and "indent_final r = indent"
proof -
  have "region_inv (new_region offset len indent)" using assms(1) by (rule region_inv_new)
  moreover have "chunks_pos (processed (new_region offset len indent))"
    by (simp add: new_region_def chunks_pos_def)
  ultimately show "region_inv r" and "chunks_pos (processed r)"
    using run_inv [OF assms(2)] by simp_all
  have "run h calls r0 = Some r \<Longrightarrow> region_inv r0 \<Longrightarrow>
          d_offset r = d_offset r0 \<and> d_length r = d_length r0 \<and> indent_final r = indent_final r0" for r0
  proof (induction h calls r0 rule: run.induct)
    case (1 h r)
    then show ?case by simp
  next
    case (2 h doc calls r0)
    have i: "region_inv (snd (check h doc r0))"
      using check_inv [OF 2(3)] by simp
    have "d_offset (snd (check h doc r0)) = d_offset r0 \<and> d_length (snd (check h doc r0)) = d_length r0
          \<and> indent_final (snd (check h doc r0)) = indent_final r0"
      by (rule check_cases [OF 2(3), where doc = doc and h = h])
         (simp_all add: check_step [OF 2(3)])
    with 2(1) [OF _ i] 2(2) show ?case by simp
  next
    case (3 h doc abs_offset calls r0)
    from 3(2) obtain res r1 where l: "instruction_by_offset h doc r0 abs_offset = Some (res, r1)"
      and rest: "run h calls r1 = Some r"
      by (auto split: option.splits)
    from ibo_only_cache [OF l] obtain cache where r1: "r1 = r0\<lparr>instructions := cache\<rparr>" by auto
    with 3(1) [OF l refl rest] 3(3) show ?case by simp
  qed
  from this [OF assms(2) region_inv_new [OF assms(1)]]
  show "d_offset r = offset" and "d_length r = len" and "indent_final r = indent"
    by (simp_all add: new_region_def)
qed

lemma chunks_from_nonneg:
  "chunks_from off line cs \<Longrightarrow> c \<in> set cs \<Longrightarrow>
     0 \<le> ir_length c \<and> 0 \<le> ir_y_lines c \<and> off \<le> ir_offset c \<and> line \<le> ir_rel_y_offset c"
proof (induction cs arbitrary: off line)
  case Nil
  then show ?case by simp
next
  case (Cons d cs)
  show ?case
  proof (cases "c = d")
    case True
    with Cons.prems show ?thesis by simp
  next
    case False
    with Cons.prems have "c \<in> set cs" "chunks_from (off + ir_length d) (line + ir_y_lines d) cs"
      "0 \<le> ir_length d" "0 \<le> ir_y_lines d"
      by simp_all
    from Cons.IH [OF this(2) this(1)] this(3,4) show ?thesis by simp
  qed
qed

lemma sum_list_ir_length_nonneg:
  "chunks_from off line cs \<Longrightarrow> 0 \<le> sum_list (map ir_length cs) \<and> 0 \<le> sum_list (map ir_y_lines cs)"
  by (induction cs arbitrary: off line) fastforce+

lemma chunk_spans:
  "chunks_from off line cs \<Longrightarrow>
     (\<Union>c \<in> set cs. {ir_offset c ..< ir_offset c + ir_length c}) = {off ..< off + sum_list (map ir_length cs)}"
proof (induction cs arbitrary: off line)
  case Nil
  then show ?case by simp
next
  case (Cons d cs)
  then have rest: "chunks_from (off + ir_length d) (line + ir_y_lines d) cs" and d: "ir_offset d = off" "0 \<le> ir_length d"
    by simp_all
  from sum_list_ir_length_nonneg [OF rest] have "0 \<le> sum_list (map ir_length cs)" by simp
  with Cons.IH [OF rest] d show ?case by (auto simp: add.assoc)
qed

lemma chunks_from_nth:
  "chunks_from off line cs \<Longrightarrow> Suc i < length cs \<Longrightarrow>
     ir_offset (cs ! i) + ir_length (cs ! i) = ir_offset (cs ! Suc i)
     \<and> ir_rel_y_offset (cs ! i) + ir_y_lines (cs ! i) = ir_rel_y_offset (cs ! Suc i)"
proof (induction cs arbitrary: off line i)
  case Nil
  then show ?case by simp
next
  case (Cons d cs)
  then show ?case by (cases i; cases cs) auto
qed

lemma chunks_from_ordered:
  "chunks_from off line cs \<Longrightarrow> i < j \<Longrightarrow> j < length cs \<Longrightarrow>
     ir_offset (cs ! i) + ir_length (cs ! i) \<le> ir_offset (cs ! j)
     \<and> ir_rel_y_offset (cs ! i) + ir_y_lines (cs ! i) \<le> ir_rel_y_offset (cs ! j)"
proof (induction cs arbitrary: off line i j)
  case Nil
  then show ?case by simp
next
  case (Cons d cs)
  from Cons.prems obtain j' where j: "j = Suc j'" "j' < length cs" by (cases j) auto
  from Cons.prems have rest: "chunks_from (off + ir_length d) (line + ir_y_lines d) cs"
    and d: "ir_offset d = off" "ir_rel_y_offset d = line" by simp_all
  show ?case
  proof (cases i)
    case 0
    have "cs ! j' \<in> set cs" using j by simp
    from chunks_from_nonneg [OF rest this] d 0 j show ?thesis by simp
  next
    case (Suc i')
    with Cons.IH [OF rest, of i' j'] Cons.prems j show ?thesis by simp
  qed
qed


lemma brs_bytes_simps [simp]:
  "brs_bytes [] = {}"
  "brs_bytes ((o1, l1) # rs) = {o1 ..< o1 + l1} \<union> brs_bytes rs"
  by (simp_all add: brs_bytes_def)

lemma foldl_plus_sum_list: "foldl (\<lambda>sum ir. sum + f ir) (a::int) xs = a + sum_list (map f xs)"
  by (induction xs arbitrary: a) simp_all

lemma c_div_nonneg: "0 \<le> a \<Longrightarrow> 0 < b \<Longrightarrow> c_div a b = a div b"
  by (cases "a = 0") (simp_all add: c_div_def)

lemma check_longest:
  "longest_instruction r \<le> longest_instruction (snd (check h doc r))
   \<and> longest_disasm r \<le> longest_disasm (snd (check h doc r))
   \<and> (longest_instruction (snd (check h doc r)) \<noteq> longest_instruction r \<longrightarrow>
        (\<exists>new_ir. processed (snd (check h doc r)) = processed r @ [new_ir]
           \<and> longest_instruction r < ir_longest_instruction new_ir
           \<and> longest_instruction (snd (check h doc r)) = ir_longest_instruction new_ir))
   \<and> (longest_disasm (snd (check h doc r)) \<noteq> longest_disasm r \<longrightarrow>
        (\<exists>new_ir. processed (snd (check h doc r)) = processed r @ [new_ir]
           \<and> longest_disasm r < ir_longest_disasm new_ir
           \<and> longest_disasm (snd (check h doc r)) = ir_longest_disasm new_ir))"
  by (simp add: check_def Let_def split: list.splits sum.splits)

lemma run_longest:
  "run h calls r = Some r' \<Longrightarrow>
     longest_instruction r \<le> longest_instruction r' \<and> longest_disasm r \<le> longest_disasm r'"
proof (induction h calls r rule: run.induct)
  case (1 h r)
  then show ?case by simp
next
  case (2 h doc calls r)
  with check_longest [of r h doc] show ?case by force
next
  case (3 h doc abs_offset calls r)
  from 3(2) obtain res r1 where l: "instruction_by_offset h doc r abs_offset = Some (res, r1)"
    and rest: "run h calls r1 = Some r'"
    by (auto split: option.splits)
  from ibo_only_cache [OF l] obtain cache where r1: "r1 = r\<lparr>instructions := cache\<rparr>" by auto
  with 3(1) [OF l refl rest] show ?case by simp
qed

lemma example_run1:
  "run example_handle [(short_document, Step)] (new_region 0 4 0) = Some example_region1"
  by code_simp

lemma example_run2:
  "run example_handle [(short_document, Step), (example_document, Step)] (new_region 0 4 0)
     = Some example_region2"
  by code_simp

lemma example_run12:
  "run example_handle [(example_document, Step)] example_region1 = Some example_region2"
  by code_simp

subsection \<open>The chunks of a region\<close>

text \<open>
  Claim C1. After every sequence of calls on a new region (steps, and lookups between
  them), the chunk list is contiguous: the first chunk starts at the base offset of the
  region and at line 0, every later chunk starts where the one before it ends, in bytes
  and in lines, no chunk has a negative length or line count, and the byte spans of two
  chunks do not overlap. Once the dirty set is empty, the byte spans of the chunks make
  up the byte range of the region, and their lengths add up to its length.
\<close>

theorem chunks_contiguous_and_cover:
  assumes "0 \<le> len" and "run h calls (new_region offset len indent) = Some r"
  shows "(processed r \<noteq> [] \<longrightarrow>
            ir_offset (hd (processed r)) = offset \<and> ir_rel_y_offset (hd (processed r)) = 0)
       \<and> (\<forall>i. Suc i < length (processed r) \<longrightarrow>
              ir_offset (processed r ! i) + ir_length (processed r ! i) = ir_offset (processed r ! Suc i)
            \<and> ir_rel_y_offset (processed r ! i) + ir_y_lines (processed r ! i)
                = ir_rel_y_offset (processed r ! Suc i))
       \<and> (\<forall>c \<in> set (processed r). 0 \<le> ir_length c \<and> 0 \<le> ir_y_lines c)
       \<and> (\<forall>i j. i < j \<and> j < length (processed r) \<longrightarrow>
              {ir_offset (processed r ! i) ..< ir_offset (processed r ! i) + ir_length (processed r ! i)}
              \<inter> {ir_offset (processed r ! j) ..< ir_offset (processed r ! j) + ir_length (processed r ! j)} = {})
       \<and> (brs_empty (dirty r) \<longrightarrow>
              (\<Union>c \<in> set (processed r). {ir_offset c ..< ir_offset c + ir_length c}) = {offset ..< offset + len}
            \<and> sum_list (map ir_length (processed r)) = len)"
proof -
  note inv = run_new_inv [OF assms]
  from inv(1) have cf: "chunks_from offset 0 (processed r)"
    by (simp add: region_inv_def inv(3))
  have 1: "processed r \<noteq> [] \<longrightarrow>
            ir_offset (hd (processed r)) = offset \<and> ir_rel_y_offset (hd (processed r)) = 0"
    using cf by (cases "processed r") simp_all
  have 2: "\<forall>i. Suc i < length (processed r) \<longrightarrow>
              ir_offset (processed r ! i) + ir_length (processed r ! i) = ir_offset (processed r ! Suc i)
            \<and> ir_rel_y_offset (processed r ! i) + ir_y_lines (processed r ! i)
                = ir_rel_y_offset (processed r ! Suc i)"
    using chunks_from_nth [OF cf] by blast
  have 3: "\<forall>c \<in> set (processed r). 0 \<le> ir_length c \<and> 0 \<le> ir_y_lines c"
    using chunks_from_nonneg [OF cf] by blast
  have 4: "\<forall>i j. i < j \<and> j < length (processed r) \<longrightarrow>
              {ir_offset (processed r ! i) ..< ir_offset (processed r ! i) + ir_length (processed r ! i)}
              \<inter> {ir_offset (processed r ! j) ..< ir_offset (processed r ! j) + ir_length (processed r ! j)} = {}"
  proof (intro allI impI)
    fix i j assume "i < j \<and> j < length (processed r)"
    then have "ir_offset (processed r ! i) + ir_length (processed r ! i) \<le> ir_offset (processed r ! j)"
      using chunks_from_ordered [OF cf, of i j] by simp
    then show "{ir_offset (processed r ! i) ..< ir_offset (processed r ! i) + ir_length (processed r ! i)}
              \<inter> {ir_offset (processed r ! j) ..< ir_offset (processed r ! j) + ir_length (processed r ! j)} = {}"
      by auto
  qed
  have 5: "brs_empty (dirty r) \<longrightarrow>
              (\<Union>c \<in> set (processed r). {ir_offset c ..< ir_offset c + ir_length c}) = {offset ..< offset + len}
            \<and> sum_list (map ir_length (processed r)) = len"
  proof
    assume "brs_empty (dirty r)"
    with inv(1) have "unprocessed_offset r = offset + len"
      by (auto simp: region_inv_def brs_empty_def inv(3,4) split: if_splits)
    moreover have "unprocessed_offset r = offset + sum_list (map ir_length (processed r))"
      using chunks_from_last [OF cf] by (auto simp: unprocessed_offset_def inv(3))
    ultimately have "sum_list (map ir_length (processed r)) = len" by simp
    with chunk_spans [OF cf]
    show "(\<Union>c \<in> set (processed r). {ir_offset c ..< ir_offset c + ir_length c}) = {offset ..< offset + len}
            \<and> sum_list (map ir_length (processed r)) = len"
      by simp
  qed
  from 1 2 3 4 5 show ?thesis by blast
qed

theorem chunks_contiguous_and_cover_witness:
  "run example_handle [(short_document, Step), (example_document, Step)] (new_region 0 4 0)
     = Some example_region2
   \<and> brs_empty (dirty example_region2)
   \<and> (\<Union>c \<in> set (processed example_region2). {ir_offset c ..< ir_offset c + ir_length c}) = {0 ..< 0 + 4}
   \<and> sum_list (map ir_length (processed example_region2)) = 4
   \<and> ir_offset (processed example_region2 ! 0) + ir_length (processed example_region2 ! 0)
       = ir_offset (processed example_region2 ! Suc 0)"
proof -
  have len: "(0::int) \<le> 4" by simp
  have e: "brs_empty (dirty example_region2)" "Suc 0 < length (processed example_region2)"
    by (simp_all add: example_region2_def brs_empty_def)
  from chunks_contiguous_and_cover [OF len example_run2] e example_run2 show ?thesis
    by blast
qed

subsection \<open>One step\<close>

text \<open>
  Claim C2, as the source has it. In a state that a new region reaches, with a dirty set
  that is not empty and a document whose read succeeds, one call of \<^verbatim>\<open>check\<close> reads at
  the start of the first dirty range, at most \<^verbatim>\<open>SOFT_IR_LIMIT\<close> = 10240 bytes, and appends
  one chunk: it starts at the first dirty range, its length is the number of bytes of
  the instructions decoded from the data, and its line count is the number of these
  instructions. The bytes of the chunk, and no others, leave the dirty set, and
  \<^verbatim>\<open>PROCESSING\<close> is set in the result if and only if the dirty set still has bytes.
\<close>

theorem check_appends_one_chunk:
  assumes "0 \<le> len" and "run h calls (new_region offset len indent) = Some r"
    and "dirty r = first_dirty_range # rest"
    and "read_data doc (fst first_dirty_range) (min (snd first_dirty_range) SOFT_IR_LIMIT) = Inr data"
  shows "int (length data) \<le> 10240
       \<and> (\<exists>state new_ir r'.
             check h doc r = (Inr state, r')
           \<and> processed r' = processed r @ [new_ir]
           \<and> ir_offset new_ir = fst first_dirty_range
           \<and> ir_length new_ir = int (insns_size (cs_insns h data (fst first_dirty_range)))
           \<and> ir_y_lines new_ir = int (length (cs_insns h data (fst first_dirty_range)))
           \<and> brs_bytes (dirty r') =
               brs_bytes (dirty r) - {ir_offset new_ir ..< ir_offset new_ir + ir_length new_ir}
           \<and> (PROCESSING \<in> state \<longleftrightarrow> brs_bytes (dirty r') \<noteq> {}))"
proof -
  note inv = run_new_inv(1) [OF assms(1,2)]
  from inv assms(3)
  have fd: "first_dirty_range = (unprocessed_offset r, d_offset r + d_length r - unprocessed_offset r)"
    and rest: "rest = []" and lt: "unprocessed_offset r < d_offset r + d_length r"
    by (auto simp: region_inv_def split: if_splits)
  have d: "dirty r \<noteq> []" using assms(3) by simp
  have rd: "read_data doc (unprocessed_offset r)
              (min (d_offset r + d_length r - unprocessed_offset r) SOFT_IR_LIMIT) = Inr data"
    using assms(4) by (simp add: fd)
  have "int (length data) \<le> 10240"
    using read_data_length [OF rd] by (simp add: SOFT_IR_LIMIT_def)
  moreover have "ir_length (step_chunk h doc r) = int (insns_size (cs_insns h data (unprocessed_offset r)))"
    "ir_y_lines (step_chunk h doc r) = int (length (cs_insns h data (unprocessed_offset r)))"
    "ir_offset (step_chunk h doc r) = unprocessed_offset r"
    using rd by (simp_all add: step_chunk_def Let_def)
  ultimately show ?thesis
    using lt by (auto simp: check_step [OF inv d rd] assms(3) fd rest)
qed

theorem check_appends_one_chunk_witness:
  "run example_handle [(short_document, Step)] (new_region 0 4 0) = Some example_region1
   \<and> dirty example_region1 = (3::int, 1::int) # []
   \<and> read_data example_document (fst (3::int, 1::int)) (min (snd (3::int, 1::int)) SOFT_IR_LIMIT) = Inr [0x07]
   \<and> (\<exists>state new_ir r'.
         check example_handle example_document example_region1 = (Inr state, r')
       \<and> processed r' = processed example_region1 @ [new_ir]
       \<and> ir_offset new_ir = fst (3::int, 1::int)
       \<and> ir_length new_ir = int (insns_size (cs_insns example_handle [0x07] (fst (3::int, 1::int))))
       \<and> ir_y_lines new_ir = int (length (cs_insns example_handle [0x07] (fst (3::int, 1::int))))
       \<and> brs_bytes (dirty r') =
           brs_bytes (dirty example_region1) - {ir_offset new_ir ..< ir_offset new_ir + ir_length new_ir}
       \<and> (PROCESSING \<in> state \<longleftrightarrow> brs_bytes (dirty r') \<noteq> {}))"
proof -
  have len: "(0::int) \<le> 4" by simp
  have d: "dirty example_region1 = (3::int, 1::int) # []"
    by (simp add: example_region1_def)
  have rd: "read_data example_document (fst (3::int, 1::int)) (min (snd (3::int, 1::int)) SOFT_IR_LIMIT) = Inr [0x07]"
    by (simp add: read_data_def example_document_def SOFT_IR_LIMIT_def)
  from check_appends_one_chunk [OF len example_run1 d rd] example_run1 d rd show ?thesis
    by blast
qed

text \<open>
  Claim C2 as it is stated holds of every region with a dirty set that is not empty.
  When the read of the document fails, \<^verbatim>\<open>check\<close> is left by the exception and appends no
  chunk: here on the new region of four bytes, over a document whose reads at offset 0
  fail.
\<close>

theorem check_read_failure_appends_nothing_counterexample:
  "dirty (new_region 0 4 0) = [(0, 4)]
   \<and> check example_handle (unreadable_at 0) (new_region 0 4 0)
       = (Inl (ReadError ''read error''), new_region 0 4 0)
   \<and> \<not> (\<exists>state new_ir r'.
           check example_handle (unreadable_at 0) (new_region 0 4 0) = (Inr state, r')
         \<and> processed r' = processed (new_region 0 4 0) @ [new_ir])"
  by (simp add: check_def new_region_def read_data_def unreadable_at_def Let_def)

subsection \<open>The height of a region\<close>

text \<open>
  Claim C6. In a state that a new region reaches, the line count that \<^verbatim>\<open>calc_height\<close>
  stores is the sum of the line counts of the chunks, plus the lines of the unprocessed
  bytes, plus the trailing padding \<^verbatim>\<open>indent_final\<close>. The unprocessed bytes are laid out at
  the longest instruction length of the chunks so far, or at 8 bytes per line when that
  is 0, which is when no chunk holds an instruction, and the number of their lines is
  rounded up: it is the least number of lines that holds them.
\<close>

theorem calc_height_line_count:
  assumes "0 \<le> len" and "run h calls (new_region offset len indent) = Some r"
  shows "let longest = foldl max 0 (map ir_longest_instruction (processed r));
             bytes_per_line = (if 0 < longest then longest else 8);
             unprocessed = len - sum_list (map ir_length (processed r));
             up_lines = y_lines (calc_height r) - sum_list (map ir_y_lines (processed r)) - indent
         in 0 \<le> unprocessed
          \<and> (up_lines - 1) * bytes_per_line < unprocessed
          \<and> unprocessed \<le> up_lines * bytes_per_line
          \<and> (0 < longest) = (\<exists>c \<in> set (processed r). 0 < ir_y_lines c)"
proof -
  note inv = run_new_inv [OF assms]
  have seen: "(0 < foldl max 0 (map ir_longest_instruction (processed r)))
                = (\<exists>c \<in> set (processed r). 0 < ir_y_lines c)"
    using inv(2) by (auto simp: foldl_max_pos chunks_pos_def list_all_iff)
  from inv(1) have cf: "chunks_from offset 0 (processed r)"
    by (simp add: region_inv_def inv(3))
  define B where "B = max_bytes_per_line r"
  define U where "U = unprocessed_bytes r"
  have B: "B = (if 0 < foldl max 0 (map ir_longest_instruction (processed r))
                then foldl max 0 (map ir_longest_instruction (processed r)) else 8)"
    using inv(1) by (simp add: B_def max_bytes_per_line_def region_inv_def)
  have Bpos: "0 < B" by (simp add: B_def max_bytes_per_line_def)
  have "unprocessed_offset r = offset + sum_list (map ir_length (processed r))"
    using chunks_from_last [OF cf] by (auto simp: unprocessed_offset_def inv(3))
  then have U: "U = len - sum_list (map ir_length (processed r))"
    by (simp add: U_def unprocessed_bytes_def inv(3,4))
  have Unn: "0 \<le> U"
    using inv(1) by (simp add: U_def unprocessed_bytes_def region_inv_def)
  have y: "y_lines (calc_height r) = sum_list (map ir_y_lines (processed r)) + (U + (B - 1)) div B + indent"
    using Unn Bpos by (simp add: calc_height_def Let_def foldl_plus_sum_list B_def [symmetric] U_def [symmetric]
                          c_div_nonneg inv(5))
  define N where "N = (U + (B - 1)) div B"
  have "N * B + (U + (B - 1)) mod B = U + (B - 1)"
    unfolding N_def by (rule div_mult_mod_eq)
  moreover have "0 \<le> (U + (B - 1)) mod B" "(U + (B - 1)) mod B < B"
    using Bpos by simp_all
  ultimately have "(N - 1) * B < U" "U \<le> N * B"
    by (simp_all add: algebra_simps)
  then have "let longest = foldl max 0 (map ir_longest_instruction (processed r));
                 bytes_per_line = (if 0 < longest then longest else 8);
                 unprocessed = len - sum_list (map ir_length (processed r));
                 up_lines = y_lines (calc_height r) - sum_list (map ir_y_lines (processed r)) - indent
             in 0 \<le> unprocessed
              \<and> (up_lines - 1) * bytes_per_line < unprocessed
              \<and> unprocessed \<le> up_lines * bytes_per_line"
    using Unn by (simp add: Let_def B [symmetric] U [symmetric] y N_def)
  with seen show ?thesis unfolding Let_def by blast
qed

theorem calc_height_line_count_witness:
  "run example_handle [(short_document, Step)] (new_region 0 4 0) = Some example_region1
   \<and> y_lines (calc_height example_region1) = 2 + 1 + 0
   \<and> (let longest = foldl max 0 (map ir_longest_instruction (processed example_region1));
           bytes_per_line = (if 0 < longest then longest else 8);
           unprocessed = 4 - sum_list (map ir_length (processed example_region1));
           up_lines = y_lines (calc_height example_region1)
                        - sum_list (map ir_y_lines (processed example_region1)) - 0
       in 0 \<le> unprocessed
        \<and> (up_lines - 1) * bytes_per_line < unprocessed
        \<and> unprocessed \<le> up_lines * bytes_per_line
        \<and> (0 < longest) = (\<exists>c \<in> set (processed example_region1). 0 < ir_y_lines c))"
proof -
  have len: "(0::int) \<le> 4" by simp
  have y: "y_lines (calc_height example_region1) = 2 + 1 + 0"
    by (simp add: calc_height_def example_region1_def max_bytes_per_line_def unprocessed_bytes_def
          unprocessed_offset_def c_div_def Let_def)
  from calc_height_line_count [OF len example_run1] example_run1 y show ?thesis
    by blast
qed

subsection \<open>The widths of a region\<close>

text \<open>
  Claim C9. From a state that a new region reaches, no sequence of calls lowers
  \<^verbatim>\<open>longest_instruction\<close> or \<^verbatim>\<open>longest_disasm\<close>, and once a chunk holds an instruction,
  \<^verbatim>\<open>max_bytes_per_line\<close> does not go down either. A step changes one of the two widths
  only to the maximum of the chunk it appends, and only when that maximum is greater.
\<close>

theorem longest_never_decreases:
  assumes "0 \<le> len" and "run h calls (new_region offset len indent) = Some r"
    and "run h more_calls r = Some r'"
  shows "longest_instruction r \<le> longest_instruction r'
       \<and> longest_disasm r \<le> longest_disasm r'
       \<and> ((\<exists>c \<in> set (processed r). 0 < ir_y_lines c) \<longrightarrow> max_bytes_per_line r \<le> max_bytes_per_line r')
       \<and> (longest_instruction (snd (check h doc r)) \<noteq> longest_instruction r \<longrightarrow>
            (\<exists>new_ir. processed (snd (check h doc r)) = processed r @ [new_ir]
               \<and> longest_instruction r < ir_longest_instruction new_ir
               \<and> longest_instruction (snd (check h doc r)) = ir_longest_instruction new_ir))
       \<and> (longest_disasm (snd (check h doc r)) \<noteq> longest_disasm r \<longrightarrow>
            (\<exists>new_ir. processed (snd (check h doc r)) = processed r @ [new_ir]
               \<and> longest_disasm r < ir_longest_disasm new_ir
               \<and> longest_disasm (snd (check h doc r)) = ir_longest_disasm new_ir))"
proof -
  note inv = run_new_inv [OF assms(1,2)]
  note mono = run_longest [OF assms(3)]
  have "max_bytes_per_line r \<le> max_bytes_per_line r'" if "\<exists>c \<in> set (processed r). 0 < ir_y_lines c"
  proof -
    from that inv(2) have "\<exists>c \<in> set (processed r). 0 < ir_longest_instruction c"
      by (auto simp: chunks_pos_def list_all_iff)
    then have "0 < longest_instruction r"
      using inv(1) by (simp add: region_inv_def foldl_max_pos)
    with mono show ?thesis by (simp add: max_bytes_per_line_def)
  qed
  with mono check_longest [of r h doc] show ?thesis by blast
qed

theorem longest_never_decreases_witness:
  "run example_handle [(short_document, Step)] (new_region 0 4 0) = Some example_region1
   \<and> run example_handle [(example_document, Step)] example_region1 = Some example_region2
   \<and> (\<exists>c \<in> set (processed example_region1). 0 < ir_y_lines c)
   \<and> longest_instruction example_region1 \<le> longest_instruction example_region2
   \<and> longest_disasm example_region1 \<le> longest_disasm example_region2
   \<and> max_bytes_per_line example_region1 \<le> max_bytes_per_line example_region2"
proof -
  have len: "(0::int) \<le> 4" by simp
  have c: "\<exists>c \<in> set (processed example_region1). 0 < ir_y_lines c"
    by (simp add: example_region1_def)
  from longest_never_decreases [OF len example_run1 example_run12] c example_run1 example_run12
  show ?thesis by blast
qed

subsection \<open>Cursor movement to the left and to the right\<close>

text \<open>
  Claim C5. Moving the cursor left and right is total on the closed interval from
  \<^verbatim>\<open>d_offset\<close> to \<^verbatim>\<open>d_offset + d_length\<close>: both functions return without a failed assertion.
  Strictly inside the interval, moving left and then right returns to the position. At
  the low end moving left returns the sentinel of the previous region; at the high end
  moving right (also after moving left) returns the sentinel of the next region. The
  sentinels are negative, so they are not offsets.
\<close>

theorem cursor_left_right_roundtrip:
  assumes "d_offset r \<le> pos" and "pos \<le> d_offset r + d_length r"
  shows "(\<exists>q. cursor_left_from r pos = Inr q) \<and> (\<exists>q. cursor_right_from r pos = Inr q)
       \<and> (if pos = d_offset r then cursor_left_from r pos = Inr CURSOR_PREV_REGION
          else if pos = d_offset r + d_length r
          then cursor_right_from r pos = Inr CURSOR_NEXT_REGION
             \<and> (case cursor_left_from r pos of Inl e \<Rightarrow> Inl e | Inr q \<Rightarrow> cursor_right_from r q)
                 = Inr CURSOR_NEXT_REGION
          else (case cursor_left_from r pos of Inl e \<Rightarrow> Inl e | Inr q \<Rightarrow> cursor_right_from r q)
                 = Inr pos)
       \<and> CURSOR_PREV_REGION < 0 \<and> CURSOR_NEXT_REGION < 0"
  using assms
  by (simp add: cursor_left_from_def cursor_right_from_def CURSOR_PREV_REGION_def CURSOR_NEXT_REGION_def)

theorem cursor_left_right_roundtrip_witness:
  "cursor_left_from (new_region 10 4 0) 10 = Inr CURSOR_PREV_REGION
   \<and> (case cursor_left_from (new_region 10 4 0) 12 of Inl e \<Rightarrow> Inl e
       | Inr q \<Rightarrow> cursor_right_from (new_region 10 4 0) q) = Inr 12
   \<and> (case cursor_left_from (new_region 10 4 0) 14 of Inl e \<Rightarrow> Inl e
       | Inr q \<Rightarrow> cursor_right_from (new_region 10 4 0) q) = Inr CURSOR_NEXT_REGION"
  using cursor_left_right_roundtrip [of "new_region 10 4 0" 10]
        cursor_left_right_roundtrip [of "new_region 10 4 0" 12]
        cursor_left_right_roundtrip [of "new_region 10 4 0" 14]
  by (simp add: new_region_def)

subsection \<open>The instruction cache\<close>

lemma ibo_loop_instrs:
  "foldl (\<lambda>a (insn, bytes). ibo_body ir insn bytes a) acc xs = acc @ instrs_of ir (length acc) xs"
  by (induction xs arbitrary: acc) (auto simp: ibo_body_def)

lemma decode_instrs:
  "cs_while h (ibo_body ir) data address [] = instrs_of ir 0 (cs_insns h data address)"
  by (simp add: cs_while_foldl ibo_loop_instrs)

lemma cs_insns_from: "insns_from address (cs_insns h code address)"
proof (induction h code address rule: cs_insns.induct)
  case (1 handle code address)
  show ?case
  proof (cases "cs_disasm_iter handle code address")
    case None
    then show ?thesis by (simp add: cs_insns.simps [of handle code])
  next
    case (Some t)
    obtain insn code' address' where t: "t = (insn, code', address')" by (cases t)
    have "insn_address insn = address" "0 < insn_size insn" "address' = address + int (insn_size insn)"
      using Some t by (auto simp: cs_disasm_iter_def split: option.splits if_splits)
    with 1 [OF Some [unfolded t] refl refl] Some t show ?thesis
      by (simp add: cs_insns.simps [of handle code])
  qed
qed

lemma instrs_of_bounds:
  "insns_from a xs \<Longrightarrow> x \<in> set (instrs_of ir n xs) \<Longrightarrow>
     a \<le> i_offset x \<and> 0 < i_length x \<and> i_offset x + i_length x \<le> a + int (insns_size xs)"
proof (induction xs arbitrary: a n)
  case Nil
  then show ?case by simp
next
  case (Cons y ys)
  obtain insn bytes where y: "y = (insn, bytes)" by (cases y)
  from Cons.prems y have rest: "insns_from (a + int (insn_size insn)) ys" and h: "insn_address insn = a" "0 < insn_size insn"
    by simp_all
  show ?case
  proof (cases "x \<in> set (instrs_of ir (Suc n) ys)")
    case True
    from Cons.IH [OF rest True] h y show ?thesis by simp
  next
    case False
    with Cons.prems(2) y h show ?thesis by auto
  qed
qed

lemma instrs_of_ordered: "insns_from a xs \<Longrightarrow> cache_ordered (instrs_of ir n xs)"
proof (induction xs arbitrary: a n)
  case Nil
  then show ?case by (simp add: cache_ordered_def)
next
  case (Cons y ys)
  obtain insn bytes where y: "y = (insn, bytes)" by (cases y)
  from Cons.prems y have rest: "insns_from (a + int (insn_size insn)) ys" and h: "insn_address insn = a" "0 < insn_size insn"
    by simp_all
  from Cons.IH [OF rest] instrs_of_bounds [OF rest] h y show ?case
    by (auto simp: cache_ordered_def)
qed

lemma cache_ordered_append:
  "cache_ordered (xs @ ys) =
     (cache_ordered xs \<and> cache_ordered ys
      \<and> (\<forall>x \<in> set xs. \<forall>y \<in> set ys. i_offset x + i_length x \<le> i_offset y))"
  by (auto simp: cache_ordered_def sorted_wrt_append)

lemma cache_ordered_last:
  assumes "cache_ordered xs" and "x \<in> set xs"
  shows "i_offset x + i_length x \<le> i_offset (last xs) + i_length (last xs)"
proof -
  from assms(2) have ne: "xs \<noteq> []" by auto
  then obtain ys where xs: "xs = ys @ [last xs]" by (metis append_butlast_last_id)
  with assms(1) have o: "\<forall>y \<in> set ys. i_offset y + i_length y \<le> i_offset (last xs)" and p: "0 < i_length (last xs)"
    by (metis cache_ordered_append list.set_intros(1), metis cache_ordered_def list.set_intros(1) list_all_iff cache_ordered_append)
  from assms(2) xs have "x \<in> set ys \<or> x = last xs" by (metis Un_iff set_append empty_iff empty_set set_ConsD)
  with o p show ?thesis by auto
qed

lemma cache_ordered_hd:
  assumes "cache_ordered xs" and "x \<in> set xs"
  shows "i_offset (hd xs) \<le> i_offset x"
proof (cases xs)
  case Nil
  with assms show ?thesis by simp
next
  case (Cons y ys)
  with assms show ?thesis by (auto simp: cache_ordered_def)
qed

lemma cache_ordered_take_drop:
  "cache_ordered xs \<Longrightarrow> cache_ordered (take k xs) \<and> cache_ordered (drop k xs)
     \<and> (\<forall>x \<in> set (take k xs). \<forall>y \<in> set (drop k xs). i_offset x + i_length x \<le> i_offset y)"
  using cache_ordered_append [of "take k xs" "drop k xs"] by simp

lemma upper_bound_le: "upper_bound key xs v \<le> length xs"
  by (simp add: upper_bound_def length_takeWhile_le)

lemmas eval_simps =
  instruction_by_offset.simps cache_find_def upper_bound_def processed_by_offset_def read_data_def
  cs_while.simps cs_disasm_iter_def ibo_body_def ibo_asserts_def cache_insert_def format_disasm_def
  INSTRUCTION_CACHE_LIMIT_def Let_def

lemma example_lookup3:
  "instruction_by_offset example_handle example_document example_region2 3 =
     Some (Inr (Some \<lparr>i_offset = 3, i_length = 1, i_data = [0x07], i_disasm = ''.byte'' @ [CHR 0x09],
          i_rel_y_offset = 2\<rparr>), example_region3)"
  by (simp add: eval_simps example_region2_def example_region3_def example_document_def example_handle_def)



lemma upper_bound_eq:
  assumes "j < length xs" and "\<And>i. i \<le> j \<Longrightarrow> key (xs ! i) \<le> v"
    and "Suc j < length xs \<Longrightarrow> v < key (xs ! Suc j)"
  shows "upper_bound key xs v = Suc j"
proof -
  have "takeWhile (\<lambda>x. \<not> v < key x) xs = take (Suc j) xs"
  proof (rule takeWhile_eq_take_P_nth)
    fix i assume "i < Suc j" "i < length xs"
    then show "\<not> v < key (xs ! i)" using assms(2) [of i] by simp
  next
    assume "Suc j < length xs"
    then show "\<not> \<not> v < key (xs ! Suc j)" using assms(3) by simp
  qed
  with assms(1) show ?thesis by (simp add: upper_bound_def)
qed

lemma cache_find_sound:
  "cache_find cache abs_offset = Some x \<Longrightarrow>
     x \<in> set cache \<and> i_offset x \<le> abs_offset \<and> abs_offset < i_offset x + i_length x"
  using upper_bound_le [of i_offset cache abs_offset]
  by (auto simp: cache_find_def Let_def split: if_splits)

lemma cache_find_complete:
  assumes o: "cache_ordered xs" and j: "j < length xs"
    and lo: "i_offset (xs ! j) \<le> abs_offset" and hi: "abs_offset < i_offset (xs ! j) + i_length (xs ! j)"
  shows "cache_find xs abs_offset = Some (xs ! j)"
proof -
  from o have sw: "sorted_wrt (\<lambda>a b. i_offset a + i_length a \<le> i_offset b) xs"
    and pos: "\<And>i. i < length xs \<Longrightarrow> 0 < i_length (xs ! i)"
    by (simp_all add: cache_ordered_def list_all_length)
  have "upper_bound i_offset xs abs_offset = Suc j"
  proof (rule upper_bound_eq [OF j])
    fix i assume "i \<le> j"
    show "i_offset (xs ! i) \<le> abs_offset"
    proof (cases "i = j")
      case True
      with lo show ?thesis by simp
    next
      case False
      with \<open>i \<le> j\<close> have "i < j" by simp
      from sorted_wrt_nth_less [OF sw this j] pos [of i] this j lo show ?thesis by simp
    qed
  next
    assume s: "Suc j < length xs"
    from sorted_wrt_nth_less [OF sw _ s, of j] hi show "abs_offset < i_offset (xs ! Suc j)" by simp
  qed
  with lo hi show ?thesis by (simp add: cache_find_def)
qed

lemma cache_insert_ordered:
  assumes o: "cache_ordered cache" and n: "cache_ordered new_instructions"
    and k: "next_i \<le> length cache"
    and a: "ibo_asserts cache next_i new_instructions"
  shows "cache_ordered (cache_insert cache next_i new_instructions)"
proof (cases "length cache + length new_instructions > INSTRUCTION_CACHE_LIMIT")
  case True
  with n show ?thesis by (simp add: cache_insert_def)
next
  case False
  note td = cache_ordered_take_drop [OF o, of next_i]
  have left: "i_offset x + i_length x \<le> i_offset y"
    if x: "x \<in> set (take next_i cache)" and y: "y \<in> set new_instructions" for x y
  proof -
    from x have k0: "next_i \<noteq> 0" by (cases next_i) auto
    with k have l: "last (take next_i cache) = cache ! (next_i - 1)"
      by (cases next_i) (simp_all add: take_Suc_conv_app_nth)
    from a k0 have "new_instructions \<noteq> []"
      and "i_offset (cache ! (next_i - 1)) + i_length (cache ! (next_i - 1)) \<le> i_offset (hd new_instructions)"
      by (auto simp: ibo_asserts_def)
    with cache_ordered_last [OF conjunct1 [OF td] x] l cache_ordered_hd [OF n y]
    show ?thesis by simp
  qed
  have right: "i_offset y + i_length y \<le> i_offset z"
    if y: "y \<in> set new_instructions" and z: "z \<in> set (drop next_i cache)" for y z
  proof -
    from z have kl: "next_i \<noteq> length cache" by (cases "next_i = length cache") auto
    with k have h: "hd (drop next_i cache) = cache ! next_i"
      by (simp add: hd_drop_conv_nth)
    from a kl have "i_offset (cache ! next_i) \<ge> i_offset (last new_instructions) + i_length (last new_instructions)"
      by (auto simp: ibo_asserts_def)
    with cache_ordered_last [OF n y] h cache_ordered_hd [OF conjunct1 [OF conjunct2 [OF td]] z]
    show ?thesis by simp
  qed
  from False td n left right show ?thesis
    by (simp add: cache_insert_def cache_ordered_append) blast
qed

lemma takeWhile_map_upt_0: "0 < n \<Longrightarrow> \<not> P (f 0) \<Longrightarrow> takeWhile P (map f [0..<n]) = []"
  by (simp add: upt_conv_Cons)

lemma full_cache_upper_bound: "upper_bound i_offset full_cache 1 = 0"
  unfolding upper_bound_def full_cache_def by (subst takeWhile_map_upt_0) simp_all

lemma full_cache_length: "length full_cache = 250000"
  by (simp add: full_cache_def)

lemma full_cache_hd: "i_offset (full_cache ! 0) = 3"
  by (simp add: full_cache_def)

lemma full_region_chunk: "processed_by_offset full_region 1 = Some example_chunk1"
proof -
  have "upper_bound ir_offset (processed full_region) 1 = 1"
    unfolding upper_bound_def full_region_def
    by (simp add: example_chunk1_def, subst takeWhile_map_upt_0) simp_all
  then show ?thesis
    by (simp add: processed_by_offset_def) (simp add: full_region_def example_chunk1_def)
qed

text \<open>
  Claim C7. A lookup that misses the cache, finds the chunk and reads it decodes the
  batch \<open>new_instructions\<close>. When one of the two assertions fails, the lookup ends there.
  Otherwise the cache of the region becomes \<open>cache'\<close>: the batch and nothing else when
  the cache and the batch together have more than \<^verbatim>\<open>INSTRUCTION_CACHE_LIMIT\<close> = 250000
  entries, and otherwise the old cache with the batch inserted at the position found by
  \<^verbatim>\<open>upper_bound\<close>, every old entry kept, before or behind the batch. When \<open>cache'\<close> holds
  an instruction that covers the offset, the lookup returns it and leaves the region with
  \<open>cache'\<close> as its cache; when it holds none, the lookup goes on from \<open>cache'\<close>. The batch
  is in offset order, and so is \<open>cache'\<close> when the cache was; the instruction of the batch
  that covers the offset is then the one that is found in \<open>cache'\<close>.
\<close>

theorem cache_cleared_over_limit:
  assumes "cache_find (instructions r) abs_offset = None"
    and "processed_by_offset r abs_offset = Some ir"
    and "read_data doc (ir_offset ir) (ir_length ir) = Inr ir_data"
  shows "let cache = instructions r;
             next_i = upper_bound i_offset cache abs_offset;
             new_instructions = cs_while h (ibo_body ir) ir_data (ir_offset ir) [];
             inserted = take next_i cache @ new_instructions @ drop next_i cache;
             cache' = (if length cache + length new_instructions > INSTRUCTION_CACHE_LIMIT
                       then new_instructions else inserted)
         in INSTRUCTION_CACHE_LIMIT = 250000
          \<and> cache_ordered new_instructions
          \<and> (if \<not> ibo_asserts cache next_i new_instructions
             then instruction_by_offset h doc r abs_offset = Some (Inl AssertionFailed, r)
             else (case cache_find cache' abs_offset of
                     Some x \<Rightarrow> instruction_by_offset h doc r abs_offset
                                 = Some (Inr (Some x), r\<lparr>instructions := cache'\<rparr>)
                   | None \<Rightarrow> instruction_by_offset h doc r abs_offset
                               = instruction_by_offset h doc (r\<lparr>instructions := cache'\<rparr>) abs_offset)
                  \<and> (cache_ordered cache \<longrightarrow>
                       cache_ordered cache'
                     \<and> (\<forall>x \<in> set new_instructions.
                           i_offset x \<le> abs_offset \<and> abs_offset < i_offset x + i_length x
                           \<longrightarrow> cache_find cache' abs_offset = Some x)))"
proof -
  let ?cache = "instructions r"
  let ?k = "upper_bound i_offset ?cache abs_offset"
  let ?new = "cs_while h (ibo_body ir) ir_data (ir_offset ir) []"
  let ?inserted = "take ?k ?cache @ ?new @ drop ?k ?cache"
  let ?cache' = "if length ?cache + length ?new > INSTRUCTION_CACHE_LIMIT then ?new else ?inserted"
  have lim: "INSTRUCTION_CACHE_LIMIT = 250000" by (simp only: INSTRUCTION_CACHE_LIMIT_def)
  have new: "cache_ordered ?new"
    by (simp add: decode_instrs instrs_of_ordered [OF cs_insns_from])
  have failed: "instruction_by_offset h doc r abs_offset = Some (Inl AssertionFailed, r)"
    if "\<not> ibo_asserts ?cache ?k ?new"
    using assms that by (subst instruction_by_offset.simps) (simp add: Let_def)
  have goes_on: "instruction_by_offset h doc r abs_offset
                   = instruction_by_offset h doc (r\<lparr>instructions := ?cache'\<rparr>) abs_offset"
    if "ibo_asserts ?cache ?k ?new"
    using assms that by (subst instruction_by_offset.simps) (simp add: Let_def cache_insert_def)
  have found: "instruction_by_offset h doc r abs_offset = Some (Inr (Some x), r\<lparr>instructions := ?cache'\<rparr>)"
    if "ibo_asserts ?cache ?k ?new" and "cache_find ?cache' abs_offset = Some x" for x
    using goes_on [OF that(1)] that(2)
    by (simp add: instruction_by_offset.simps [of h doc "r\<lparr>instructions := ?cache'\<rparr>"])
  have ordered: "cache_ordered ?cache'
                 \<and> (\<forall>x \<in> set ?new. i_offset x \<le> abs_offset \<and> abs_offset < i_offset x + i_length x
                       \<longrightarrow> cache_find ?cache' abs_offset = Some x)"
    if a: "ibo_asserts ?cache ?k ?new" and o: "cache_ordered ?cache"
  proof -
    have o': "cache_ordered ?cache'"
      using cache_insert_ordered [OF o new upper_bound_le a] by (simp add: cache_insert_def)
    have "cache_find ?cache' abs_offset = Some x"
      if x: "x \<in> set ?new" and cov: "i_offset x \<le> abs_offset" "abs_offset < i_offset x + i_length x" for x
    proof -
      from x have "x \<in> set ?cache'" by simp
      then obtain j where j: "j < length ?cache'" "x = ?cache' ! j"
        unfolding in_set_conv_nth by blast
      from cache_find_complete [OF o' j(1), of abs_offset] cov j show ?thesis by simp
    qed
    with o' show ?thesis by blast
  qed
  show ?thesis
    unfolding Let_def
  proof (intro conjI)
    show "INSTRUCTION_CACHE_LIMIT = 250000" by (rule lim)
    show "cache_ordered ?new" by (rule new)
    show "if \<not> ibo_asserts ?cache ?k ?new
          then instruction_by_offset h doc r abs_offset = Some (Inl AssertionFailed, r)
          else (case cache_find ?cache' abs_offset of
                  Some x \<Rightarrow> instruction_by_offset h doc r abs_offset
                              = Some (Inr (Some x), r\<lparr>instructions := ?cache'\<rparr>)
                | None \<Rightarrow> instruction_by_offset h doc r abs_offset
                            = instruction_by_offset h doc (r\<lparr>instructions := ?cache'\<rparr>) abs_offset)
               \<and> (cache_ordered ?cache \<longrightarrow>
                    cache_ordered ?cache'
                  \<and> (\<forall>x \<in> set ?new.
                        i_offset x \<le> abs_offset \<and> abs_offset < i_offset x + i_length x
                        \<longrightarrow> cache_find ?cache' abs_offset = Some x))"
    proof (cases "ibo_asserts ?cache ?k ?new")
      case False
      with failed show ?thesis by simp
    next
      case True
      show ?thesis
      proof (cases "cache_find ?cache' abs_offset")
        case None
        with True goes_on [OF True] ordered [OF True] show ?thesis by simp
      next
        case (Some x)
        with True found [OF True Some] ordered [OF True] show ?thesis by simp
      qed
    qed
  qed
qed

theorem cache_cleared_over_limit_witness:
  "\<not> length (instructions example_region3) + length example_batch1 > INSTRUCTION_CACHE_LIMIT
   \<and> instruction_by_offset example_handle example_document example_region3 1
     = Some (Inr (Some (example_batch1 ! 1)),
             example_region3\<lparr>instructions := example_batch1 @ instructions example_region3\<rparr>)
   \<and> length (instructions full_region) + length example_batch1 > INSTRUCTION_CACHE_LIMIT
   \<and> instruction_by_offset example_handle full_document full_region 1
       = Some (Inr (Some (example_batch1 ! 1)), full_region\<lparr>instructions := example_batch1\<rparr>)"
proof -
  have new: "cs_while example_handle (ibo_body example_chunk1) [0x90, 0xB0, 0x01] (ir_offset example_chunk1) []
               = example_batch1"
    by (simp add: cs_while.simps cs_disasm_iter_def example_handle_def ibo_body_def format_disasm_def
          example_chunk1_def example_batch1_def)
  have 1: "cache_find (instructions example_region3) 1 = None"
    by (simp add: example_region3_def cache_find_def upper_bound_def)
  have 2: "processed_by_offset example_region3 1 = Some example_chunk1"
    by (simp add: example_region3_def example_region2_def processed_by_offset_def upper_bound_def
          example_chunk1_def)
  have 3: "read_data example_document (ir_offset example_chunk1) (ir_length example_chunk1)
             = Inr [0x90, 0xB0, 0x01]"
    by (simp add: read_data_def example_document_def example_chunk1_def)
  have k: "upper_bound i_offset (instructions example_region3) 1 = 0"
    by (simp add: example_region3_def upper_bound_def)
  have small: "\<not> length (instructions example_region3) + length example_batch1 > INSTRUCTION_CACHE_LIMIT"
    by (simp add: example_region3_def example_batch1_def INSTRUCTION_CACHE_LIMIT_def)
  have a: "ibo_asserts (instructions example_region3) 0 example_batch1"
    by (simp add: ibo_asserts_def example_region3_def example_batch1_def)
  have f: "cache_find (example_batch1 @ instructions example_region3) 1 = Some (example_batch1 ! 1)"
    by (simp add: cache_find_def upper_bound_def example_region3_def example_batch1_def)
  have 4: "cache_find (instructions full_region) 1 = None"
    by (simp add: full_region_def cache_find_def full_cache_upper_bound)
  have 5: "read_data full_document (ir_offset example_chunk1) (ir_length example_chunk1)
             = Inr [0x90, 0xB0, 0x01]"
    by (simp add: read_data_def full_document_def example_chunk1_def)
  have k': "upper_bound i_offset (instructions full_region) 1 = 0"
    by (simp add: full_region_def full_cache_upper_bound)
  have big: "length (instructions full_region) + length example_batch1 > INSTRUCTION_CACHE_LIMIT"
    by (simp add: full_region_def full_cache_length example_batch1_def INSTRUCTION_CACHE_LIMIT_def)
  have a': "ibo_asserts (instructions full_region) 0 example_batch1"
    by (simp add: ibo_asserts_def full_region_def full_cache_length full_cache_hd example_batch1_def)
  have f': "cache_find example_batch1 1 = Some (example_batch1 ! 1)"
    by (simp add: cache_find_def upper_bound_def example_batch1_def)
  from cache_cleared_over_limit [OF 1 2 3, of example_handle, unfolded Let_def k new] small a f
       cache_cleared_over_limit [OF 4 full_region_chunk 5, of example_handle, unfolded Let_def k' new] big a' f'
  show ?thesis by simp
qed

subsection \<open>Read failures\<close>

text \<open>
  Claim C8. What the source does when \<^verbatim>\<open>read_data\<close> fails. In the on-demand decode of a
  lookup the exception is caught: the lookup returns the empty result (\<^verbatim>\<open>EMPTY_END\<close>) and
  the region is as it was. In a step the exception is not caught: it leaves \<^verbatim>\<open>check\<close>,
  which has no result of its own then; the region is as it was, with its chunk list,
  cache, dirty set and widths.
\<close>

theorem read_failure_keeps_state:
  "(dirty r = first_dirty_range # rest
      \<and> read_data doc (fst first_dirty_range) (min (snd first_dirty_range) SOFT_IR_LIMIT) = Inl e
      \<longrightarrow> check h doc r = (Inl e, r))
   \<and> (cache_find (instructions r) abs_offset = None
      \<and> processed_by_offset r abs_offset = Some ir
      \<and> read_data doc (ir_offset ir) (ir_length ir) = Inl e
      \<longrightarrow> instruction_by_offset h doc r abs_offset = Some (Inr None, r))"
  by (simp add: check_def Let_def instruction_by_offset.simps [of h doc r])


theorem read_failure_keeps_state_witness:
  "check example_handle (unreadable_at 0) (new_region 0 4 0) = (Inl (ReadError ''read error''), new_region 0 4 0)
   \<and> instruction_by_offset example_handle (unreadable_at 0) example_region2 1 = Some (Inr None, example_region2)"
proof -
  have 1: "dirty (new_region 0 4 0) = (0, 4) # []"
    by (simp add: new_region_def)
  have 2: "read_data (unreadable_at 0) (fst (0::int, 4::int)) (min (snd (0::int, 4::int)) SOFT_IR_LIMIT)
             = Inl (ReadError ''read error'')"
    by (simp add: read_data_def unreadable_at_def)
  have 3: "cache_find (instructions example_region2) 1 = None"
    by (simp add: example_region2_def cache_find_def upper_bound_def)
  have 4: "processed_by_offset example_region2 1 = Some (hd (processed example_region2))"
    by (simp add: example_region2_def processed_by_offset_def upper_bound_def)
  have 5: "read_data (unreadable_at 0) (ir_offset (hd (processed example_region2)))
             (ir_length (hd (processed example_region2))) = Inl (ReadError ''read error'')"
    by (simp add: read_data_def unreadable_at_def example_region2_def)
  from read_failure_keeps_state [where r = "new_region 0 4 0" and first_dirty_range = "(0, 4)"
         and rest = "[]" and doc = "unreadable_at 0" and e = "ReadError ''read error''"
         and h = example_handle]
       read_failure_keeps_state [where r = example_region2 and doc = "unreadable_at 0"
         and e = "ReadError ''read error''" and h = example_handle and abs_offset = 1
         and ir = "hd (processed example_region2)"]
    1 2 3 4 5
  show ?thesis by blast
qed

subsection \<open>Cursor movement when a lookup fails\<close>










subsection \<open>Lookups are repeatable\<close>

lemma processed_by_offset_complete:
  assumes cf: "chunks_from off line (processed r)" and j: "j < length (processed r)"
    and lo: "ir_offset (processed r ! j) \<le> abs_offset"
    and hi: "abs_offset < ir_offset (processed r ! j) + ir_length (processed r ! j)"
  shows "processed_by_offset r abs_offset = Some (processed r ! j)"
proof -
  have "upper_bound ir_offset (processed r) abs_offset = Suc j"
  proof (rule upper_bound_eq [OF j])
    fix i assume "i \<le> j"
    show "ir_offset (processed r ! i) \<le> abs_offset"
    proof (cases "i = j")
      case True
      with lo show ?thesis by simp
    next
      case False
      with \<open>i \<le> j\<close> have "i < j" by simp
      from chunks_from_ordered [OF cf this j] chunks_from_nonneg [OF cf, of "processed r ! i"] this j lo
      show ?thesis by simp
    qed
  next
    assume s: "Suc j < length (processed r)"
    from chunks_from_nth [OF cf s] hi show "abs_offset < ir_offset (processed r ! Suc j)" by simp
  qed
  with lo hi show ?thesis by (simp add: processed_by_offset_def)
qed

lemma processed_by_offset_sound:
  "processed_by_offset r abs_offset = Some ir \<Longrightarrow>
     ir \<in> set (processed r) \<and> ir_offset ir \<le> abs_offset \<and> abs_offset < ir_offset ir + ir_length ir"
  using upper_bound_le [of ir_offset "processed r" abs_offset]
  by (auto simp: processed_by_offset_def Let_def split: if_splits)

lemma chunk_batch_ordered: "cache_ordered (chunk_batch h doc c)"
proof (cases "read_data doc (ir_offset c) (ir_length c)")
  case (Inl e)
  then show ?thesis by (simp add: chunk_batch_def cache_ordered_def)
next
  case (Inr data)
  then show ?thesis by (simp add: chunk_batch_def decode_instrs instrs_of_ordered [OF cs_insns_from])
qed

lemma chunk_batch_bounds:
  assumes "x \<in> set (chunk_batch h doc c)"
  shows "ir_offset c \<le> i_offset x \<and> i_offset x + i_length x \<le> ir_offset c + ir_length c"
proof (cases "read_data doc (ir_offset c) (ir_length c)")
  case (Inl e)
  with assms show ?thesis by (simp add: chunk_batch_def)
next
  case (Inr data)
  with assms have "x \<in> set (instrs_of c 0 (cs_insns h data (ir_offset c)))"
    by (simp add: chunk_batch_def decode_instrs)
  from instrs_of_bounds [OF cs_insns_from this] cs_insns_size_le [of h data "ir_offset c"]
    read_data_length [OF Inr]
  show ?thesis by simp
qed


lemma chunks_same_span:
  assumes cf: "chunks_from off line cs" and c: "c \<in> set cs" and d: "d \<in> set cs"
    and pc: "ir_offset c \<le> p" "p < ir_offset c + ir_length c"
    and pd: "ir_offset d \<le> p" "p < ir_offset d + ir_length d"
  shows "c = d"
proof -
  from c d obtain i j where i: "i < length cs" "c = cs ! i" and j: "j < length cs" "d = cs ! j"
    by (auto simp: in_set_conv_nth)
  have "i = j"
  proof (rule ccontr)
    assume "i \<noteq> j"
    then consider "i < j" | "j < i" by linarith
    then show False
    proof cases
      case 1
      from chunks_from_ordered [OF cf 1 j(1)] pc pd i j show False by simp
    next
      case 2
      from chunks_from_ordered [OF cf 2 i(1)] pc pd i j show False by simp
    qed
  qed
  with i j show ?thesis by simp
qed

text \<open>A hit of the cache is the instruction of the batch of the chunk that owns the offset.\<close>

lemma cache_hit_in_batch:
  assumes ri: "region_inv r" and ci: "cache_inv h doc r"
    and f: "cache_find (instructions r) abs_offset = Some x"
  shows "\<exists>c. processed_by_offset r abs_offset = Some c \<and> cache_find (chunk_batch h doc c) abs_offset = Some x"
proof -
  from ri have cf: "chunks_from (d_offset r) 0 (processed r)" by (simp add: region_inv_def)
  from cache_find_sound [OF f] have x: "x \<in> set (instructions r)"
    and cov: "i_offset x \<le> abs_offset" "abs_offset < i_offset x + i_length x" by simp_all
  from ci x obtain c where c: "c \<in> set (processed r)" and xc: "x \<in> set (chunk_batch h doc c)"
    by (auto simp: cache_inv_def)
  from chunk_batch_bounds [OF xc] cov
  have span: "ir_offset c \<le> abs_offset" "abs_offset < ir_offset c + ir_length c" by simp_all
  from c obtain j where j: "j < length (processed r)" "c = processed r ! j"
    by (auto simp: in_set_conv_nth)
  from processed_by_offset_complete [OF cf j(1)] span j
  have p: "processed_by_offset r abs_offset = Some c" by simp
  from xc obtain k where k: "k < length (chunk_batch h doc c)" "x = chunk_batch h doc c ! k"
    by (auto simp: in_set_conv_nth)
  from cache_find_complete [OF chunk_batch_ordered k(1)] cov k
  have "cache_find (chunk_batch h doc c) abs_offset = Some x" by simp
  with p show ?thesis by blast
qed

lemma set_cache_insert:
  "set (cache_insert cache k new_instructions) \<subseteq> set cache \<union> set new_instructions"
  by (auto simp: cache_insert_def dest: in_set_takeD in_set_dropD)

lemma ibo_cache_inv:
  assumes "instruction_by_offset h doc r abs_offset = Some y" and "cache_inv h doc r"
  shows "cache_inv h doc (snd y)
         \<and> (\<forall>x. fst y = Inr (Some x) \<longrightarrow> cache_find (instructions (snd y)) abs_offset = Some x)
         \<and> (fst y = Inr None \<longrightarrow> snd y = r \<and> cache_find (instructions r) abs_offset = None
              \<and> (processed_by_offset r abs_offset = None
                 \<or> (\<exists>ir e. processed_by_offset r abs_offset = Some ir
                      \<and> read_data doc (ir_offset ir) (ir_length ir) = Inl e)))"
  using assms
proof (induction rule: ibo_induct)
  case (refill r ir ir_data y)
  let ?new = "cs_while h (ibo_body ir) ir_data (ir_offset ir) []"
  let ?r' = "r\<lparr>instructions := cache_insert (instructions r)
                (upper_bound i_offset (instructions r) abs_offset) ?new\<rparr>"
  have new: "?new = chunk_batch h doc ir" using refill(3) by (simp add: chunk_batch_def)
  from processed_by_offset_sound [OF refill(2)] have ir: "ir \<in> set (processed r)" by simp
  have inv': "cache_inv h doc ?r'"
    using refill(7) ir set_cache_insert [of "instructions r" "upper_bound i_offset (instructions r) abs_offset" ?new]
    unfolding cache_inv_def new by auto
  from refill(6) [OF inv'] have r': "cache_inv h doc (snd y)"
    "\<forall>x. fst y = Inr (Some x) \<longrightarrow> cache_find (instructions (snd y)) abs_offset = Some x"
    and none: "fst y = Inr None \<longrightarrow> snd y = ?r' \<and> cache_find (instructions ?r') abs_offset = None
              \<and> (processed_by_offset ?r' abs_offset = None
                 \<or> (\<exists>ir e. processed_by_offset ?r' abs_offset = Some ir
                      \<and> read_data doc (ir_offset ir) (ir_length ir) = Inl e))"
    by simp_all
  have same: "processed_by_offset ?r' abs_offset = processed_by_offset r abs_offset"
    by (simp add: processed_by_offset_def Let_def)
  from none refill(2,3) have "fst y \<noteq> Inr None" unfolding same by auto
  with r' show ?case by simp
qed auto

lemma cache_inv_check:
  assumes ri: "region_inv r" and ci: "cache_inv h doc r"
  shows "cache_inv h doc (snd (check h doc' r))"
proof (rule check_cases [OF ri, where doc = doc' and h = h], goal_cases)
  case 1
  with ci show ?thesis by simp
next
  case (2 e)
  with ci show ?thesis by simp
next
  case (3 data)
  with ci show ?thesis
    by (auto simp: check_step [OF ri 3(1) 3(2)] cache_inv_def)
qed

lemma run_cache_inv:
  assumes "run h calls r = Some r'" and "region_inv r" and "cache_inv h doc r"
    and "\<forall>c \<in> set calls. fst c = doc"
  shows "cache_inv h doc r'"
  using assms
proof (induction h calls r rule: run.induct)
  case (1 h r)
  then show ?case by simp
next
  case (2 h doc' calls r)
  from check_inv [OF 2(3), of h doc'] cache_inv_check [OF 2(3,4), of doc'] 2(1,2,5)
  show ?case by simp
next
  case (3 h doc' abs_offset calls r)
  from 3(5) have d: "doc' = doc" by simp
  from 3(2) obtain res r1 where l: "instruction_by_offset h doc r abs_offset = Some (res, r1)"
    and rest: "run h calls r1 = Some r'"
    by (auto simp: d split: option.splits)
  from ibo_only_cache [OF l] obtain cache where r1: "r1 = r\<lparr>instructions := cache\<rparr>" by auto
  from ibo_cache_inv [OF l 3(4)] have "cache_inv h doc r1" by simp
  with 3(1) [OF l [folded d] refl rest] 3(3,5) r1 show ?case by simp
qed

lemma processed_by_offset_cache [simp]:
  "processed_by_offset (r\<lparr>instructions := cache\<rparr>) abs_offset = processed_by_offset r abs_offset"
  by (simp add: processed_by_offset_def Let_def)

lemma cache_find_Nil [simp]: "cache_find [] abs_offset = None"
  by (simp add: cache_find_def upper_bound_def)

lemma ibo_hit: "cache_find (instructions r) abs_offset = Some x \<Longrightarrow>
    instruction_by_offset h doc r abs_offset = Some (Inr (Some x), r)"
  by (simp add: instruction_by_offset.simps [of h doc r])

lemma ibo_from_empty_cache:
  assumes e: "instructions r = []"
    and c: "processed_by_offset r abs_offset = Some c"
    and f: "cache_find (chunk_batch h doc c) abs_offset = Some x"
  shows "instruction_by_offset h doc r abs_offset
           = Some (Inr (Some x), r\<lparr>instructions := chunk_batch h doc c\<rparr>)"
proof -
  from f obtain data where rd: "read_data doc (ir_offset c) (ir_length c) = Inr data"
    by (cases "read_data doc (ir_offset c) (ir_length c)") (simp_all add: chunk_batch_def)
  then have new: "cs_while h (ibo_body c) data (ir_offset c) [] = chunk_batch h doc c"
    by (simp add: chunk_batch_def)
  have "instruction_by_offset h doc r abs_offset
          = instruction_by_offset h doc (r\<lparr>instructions := chunk_batch h doc c\<rparr>) abs_offset"
    by (subst instruction_by_offset.simps)
       (simp add: e c rd new upper_bound_def ibo_asserts_def cache_insert_def Let_def)
  also have "\<dots> = Some (Inr (Some x), r\<lparr>instructions := chunk_batch h doc c\<rparr>)"
    using f by (simp add: ibo_hit)
  finally show ?thesis .
qed

lemma cs_insns_Nil [simp]: "cs_insns h [] a = []"
  by (simp add: cs_insns.simps [of h "[]"] cs_disasm_iter_def split: option.splits)

lemma cs_insns_take:
  assumes st: "prefix_stable h"
  shows "cs_insns h (take (insns_size (cs_insns h code a)) code) a = cs_insns h code a"
  using st
proof (induction h code a rule: cs_insns.induct)
  case (1 handle code address)
  show ?case
  proof (cases "cs_disasm_iter handle code address")
    case None
    then show ?thesis by (simp add: cs_insns.simps [of handle code])
  next
    case (Some t)
    obtain insn code' address' where t: "t = (insn, code', address')" by (cases t)
    from Some t obtain sz mn ops where h: "handle code address = Some (sz, mn, ops)"
      and sz: "0 < sz" "sz \<le> length code"
      and insn: "insn = \<lparr>insn_address = address, insn_size = sz, insn_mnemonic = mn, insn_op_str = ops\<rparr>"
      and code': "code' = drop sz code" and address': "address' = address + int sz"
      by (auto simp: cs_disasm_iter_def split: option.splits if_splits)
    let ?rest = "cs_insns handle code' address'"
    let ?n = "sz + insns_size ?rest"
    have unf: "cs_insns handle code address = (insn, take sz code) # ?rest"
      using Some t insn by (simp add: cs_insns.simps [of handle code])
    have "handle (take ?n code) address = Some (sz, mn, ops)"
      using 1(2) h sz by (simp add: prefix_stable_def)
    then have it: "cs_disasm_iter handle (take ?n code) address
                     = Some (insn, take (insns_size ?rest) code', address')"
      using sz by (simp add: cs_disasm_iter_def insn code' address' drop_take min_def)
    have "cs_insns handle (take ?n code) address
            = (insn, take sz (take ?n code)) # cs_insns handle (take (insns_size ?rest) code') address'"
      using it insn by (simp add: cs_insns.simps [of handle "take ?n code"])
    also have "\<dots> = (insn, take sz code) # ?rest"
      using 1(1) [OF Some [unfolded t] refl refl 1(2)] by (simp add: min_def)
    finally show ?thesis by (simp add: unf insn)
  qed
qed

lemma step_chunk_tiled:
  assumes st: "prefix_stable h"
    and rd: "read_data doc (unprocessed_offset r)
               (min (d_offset r + d_length r - unprocessed_offset r) SOFT_IR_LIMIT) = Inr data0"
  shows "chunk_tiled h doc (step_chunk h doc r)"
proof -
  let ?base = "unprocessed_offset r"
  let ?xs = "cs_insns h data0 ?base"
  have c: "ir_offset (step_chunk h doc r) = ?base" "ir_length (step_chunk h doc r) = int (insns_size ?xs)"
    using rd by (simp_all add: step_chunk_def Let_def)
  show ?thesis
  proof (cases "read_data doc ?base (int (insns_size ?xs))")
    case (Inl e)
    then show ?thesis by (simp add: chunk_tiled_def c)
  next
    case (Inr data)
    from rd have d0: "data0 = take (nat (min (d_offset r + d_length r - ?base) SOFT_IR_LIMIT))
                               (drop (nat ?base) (doc_contents doc))"
      by (auto simp: read_data_def split: if_splits)
    from Inr have d: "data = take (insns_size ?xs) (drop (nat ?base) (doc_contents doc))"
      by (auto simp: read_data_def split: if_splits)
    have "insns_size ?xs \<le> length data0" by (rule cs_insns_size_le)
    also have "\<dots> \<le> nat (min (d_offset r + d_length r - ?base) SOFT_IR_LIMIT)"
      by (simp add: d0)
    finally have "data = take (insns_size ?xs) data0"
      by (simp add: d d0 min_def)
    with cs_insns_take [OF st, of data0 ?base] have "cs_insns h data ?base = ?xs" by simp
    with Inr show ?thesis by (simp add: chunk_tiled_def c)
  qed
qed

lemma instrs_of_Nil_iff [simp]: "(instrs_of ir n xs = []) = (xs = [])"
  by (cases xs) auto

lemma instrs_of_hd: "insns_from a xs \<Longrightarrow> xs \<noteq> [] \<Longrightarrow> i_offset (hd (instrs_of ir n xs)) = a"
  by (cases xs) auto

lemma instrs_of_last:
  "insns_from a xs \<Longrightarrow> xs \<noteq> [] \<Longrightarrow>
     i_offset (last (instrs_of ir n xs)) + i_length (last (instrs_of ir n xs)) = a + int (insns_size xs)"
proof (induction xs arbitrary: a n)
  case Nil
  then show ?case by simp
next
  case (Cons y ys)
  obtain insn bytes where y: "y = (insn, bytes)" by (cases y)
  show ?case
  proof (cases "ys = []")
    case True
    with Cons.prems y show ?thesis by simp
  next
    case False
    from Cons.prems y have "insns_from (a + int (insn_size insn)) ys" "insn_address insn = a" by simp_all
    from Cons.IH [OF this(1) False] False y show ?thesis by simp
  qed
qed

lemma instrs_of_covers:
  "insns_from a xs \<Longrightarrow> a \<le> p \<Longrightarrow> p < a + int (insns_size xs) \<Longrightarrow>
     \<exists>x \<in> set (instrs_of ir n xs). i_offset x \<le> p \<and> p < i_offset x + i_length x"
proof (induction xs arbitrary: a n)
  case Nil
  then show ?case by simp
next
  case (Cons y ys)
  obtain insn bytes where y: "y = (insn, bytes)" by (cases y)
  from Cons.prems y have rest: "insns_from (a + int (insn_size insn)) ys" and h: "insn_address insn = a"
    by simp_all
  show ?case
  proof (cases "p < a + int (insn_size insn)")
    case True
    with Cons.prems h y show ?thesis by simp
  next
    case False
    with Cons.prems y have "a + int (insn_size insn) \<le> p"
      "p < a + int (insn_size insn) + int (insns_size ys)" by simp_all
    from Cons.IH [OF rest this] y show ?thesis by auto
  qed
qed

lemma chunk_batch_tiles:
  assumes t: "chunk_tiled h doc c" and rd: "read_data doc (ir_offset c) (ir_length c) = Inr data"
    and lo: "ir_offset c \<le> p" and hi: "p < ir_offset c + ir_length c"
  shows "chunk_batch h doc c \<noteq> []"
    and "i_offset (hd (chunk_batch h doc c)) = ir_offset c"
    and "i_offset (last (chunk_batch h doc c)) + i_length (last (chunk_batch h doc c))
           = ir_offset c + ir_length c"
    and "\<exists>x \<in> set (chunk_batch h doc c). i_offset x \<le> p \<and> p < i_offset x + i_length x"
proof -
  let ?xs = "cs_insns h data (ir_offset c)"
  have b: "chunk_batch h doc c = instrs_of c 0 ?xs"
    using rd by (simp add: chunk_batch_def decode_instrs)
  from t rd have sz: "int (insns_size ?xs) = ir_length c" by (simp add: chunk_tiled_def)
  with lo hi have ne: "?xs \<noteq> []" by auto
  note f = cs_insns_from [of "ir_offset c" h data]
  show "chunk_batch h doc c \<noteq> []" using ne by (simp add: b)
  show "i_offset (hd (chunk_batch h doc c)) = ir_offset c"
    using instrs_of_hd [OF f ne] by (simp add: b)
  show "i_offset (last (chunk_batch h doc c)) + i_length (last (chunk_batch h doc c))
           = ir_offset c + ir_length c"
    using instrs_of_last [OF f ne] sz by (simp add: b)
  show "\<exists>x \<in> set (chunk_batch h doc c). i_offset x \<le> p \<and> p < i_offset x + i_length x"
    using instrs_of_covers [OF f lo] hi sz by (simp add: b)
qed

lemma upper_bound_before:
  "i < upper_bound key xs v \<Longrightarrow> key (xs ! i) \<le> v"
proof -
  assume i: "i < upper_bound key xs v"
  then have "takeWhile (\<lambda>x. \<not> v < key x) xs ! i = xs ! i"
    by (simp add: upper_bound_def takeWhile_nth)
  moreover have "takeWhile (\<lambda>x. \<not> v < key x) xs ! i \<in> set (takeWhile (\<lambda>x. \<not> v < key x) xs)"
    using i by (simp add: upper_bound_def)
  ultimately show ?thesis by (auto dest: set_takeWhileD)
qed

lemma upper_bound_at:
  "upper_bound key xs v < length xs \<Longrightarrow> v < key (xs ! upper_bound key xs v)"
  using nth_length_takeWhile [of "\<lambda>x. \<not> v < key x" xs] by (simp add: upper_bound_def)

lemma chunk_batch_pos: "x \<in> set (chunk_batch h doc c) \<Longrightarrow> 0 < i_length x"
  using chunk_batch_ordered [of h doc c] by (simp add: cache_ordered_def list_all_iff)

text \<open>An instruction of a batch that overlaps the span of a chunk is of the batch of that chunk.\<close>

lemma batch_overlap_same_chunk:
  assumes cf: "chunks_from off line cs" and c: "c \<in> set cs" and c': "c' \<in> set cs"
    and x: "x \<in> set (chunk_batch h doc c')"
    and lo: "ir_offset c < i_offset x + i_length x" and hi: "i_offset x < ir_offset c + ir_length c"
    and pos: "0 < ir_length c"
  shows "c' = c"
proof -
  note b = chunk_batch_bounds [OF x] chunk_batch_pos [OF x]
  let ?p = "max (ir_offset c) (i_offset x)"
  have "ir_offset c \<le> ?p" "?p < ir_offset c + ir_length c" "ir_offset c' \<le> ?p" "?p < ir_offset c' + ir_length c'"
    using b lo hi pos by (simp_all add: max_def)
  from chunks_same_span [OF cf c' c this(3,4) this(1,2)] show ?thesis .
qed

lemma miss_no_batch:
  assumes ri: "region_inv r" and cc: "chunks_cached h doc r"
    and miss: "cache_find (instructions r) abs_offset = None"
    and chunk: "processed_by_offset r abs_offset = Some c"
    and rd: "read_data doc (ir_offset c) (ir_length c) = Inr data"
  shows "set (chunk_batch h doc c) \<inter> set (instructions r) = {}"
proof (rule ccontr)
  assume ne: "set (chunk_batch h doc c) \<inter> set (instructions r) \<noteq> {}"
  note s = processed_by_offset_sound [OF chunk]
  from cc s have t: "chunk_tiled h doc c" and sub: "set (chunk_batch h doc c) \<subseteq> set (instructions r)"
    and o: "cache_ordered (instructions r)"
    using ne by (auto simp: chunks_cached_def)
  from chunk_batch_tiles(4) [OF t rd, of abs_offset] s
  obtain x where x: "x \<in> set (chunk_batch h doc c)" "i_offset x \<le> abs_offset" "abs_offset < i_offset x + i_length x"
    by auto
  from x(1) sub have "x \<in> set (instructions r)" by blast
  then obtain j where j: "j < length (instructions r)" "x = instructions r ! j"
    by (auto simp: in_set_conv_nth)
  from cache_find_complete [OF o j(1), of abs_offset] x j miss show False by simp
qed

lemma asserts_hold:
  assumes ri: "region_inv r" and cc: "chunks_cached h doc r" and ci: "cache_inv h doc r"
    and miss: "cache_find (instructions r) abs_offset = None"
    and chunk: "processed_by_offset r abs_offset = Some c"
    and rd: "read_data doc (ir_offset c) (ir_length c) = Inr data"
  shows "ibo_asserts (instructions r) (upper_bound i_offset (instructions r) abs_offset) (chunk_batch h doc c)"
proof -
  let ?cache = "instructions r"
  let ?k = "upper_bound i_offset ?cache abs_offset"
  let ?new = "chunk_batch h doc c"
  from ri have cf: "chunks_from (d_offset r) 0 (processed r)" by (simp add: region_inv_def)
  note s = processed_by_offset_sound [OF chunk]
  from s have pos: "0 < ir_length c" by simp
  from cc s have t: "chunk_tiled h doc c" by (simp add: chunks_cached_def)
  note tiles = chunk_batch_tiles [OF t rd, of abs_offset]
  note disj = miss_no_batch [OF ri cc miss chunk rd]
  have k: "?k \<le> length ?cache" by (rule upper_bound_le)
  have ne: "?new \<noteq> []" using tiles(1) s by simp
  have left: "i_offset (?cache ! (?k - 1)) + i_length (?cache ! (?k - 1)) \<le> i_offset (hd ?new)" if k0: "?k \<noteq> 0"
  proof (rule ccontr)
    let ?prev = "?cache ! (?k - 1)"
    assume "\<not> i_offset ?prev + i_length ?prev \<le> i_offset (hd ?new)"
    with tiles(2) s have lo: "ir_offset c < i_offset ?prev + i_length ?prev" by simp
    from k0 k have m: "?prev \<in> set ?cache" by simp
    from k0 upper_bound_before [of "?k - 1" i_offset ?cache abs_offset] s
    have hi: "i_offset ?prev < ir_offset c + ir_length c" by simp
    from ci m obtain c' where c': "c' \<in> set (processed r)" "?prev \<in> set (chunk_batch h doc c')"
      by (auto simp: cache_inv_def)
    from batch_overlap_same_chunk [OF cf conjunct1 [OF s] c' lo hi pos] c'(2) m disj
    show False by auto
  qed
  have right: "i_offset (?cache ! ?k) \<ge> i_offset (last ?new) + i_length (last ?new)" if kl: "?k \<noteq> length ?cache"
  proof (rule ccontr)
    let ?next = "?cache ! ?k"
    assume "\<not> i_offset ?next \<ge> i_offset (last ?new) + i_length (last ?new)"
    with tiles(3) s have hi: "i_offset ?next < ir_offset c + ir_length c" by simp
    from kl k have m: "?next \<in> set ?cache" and lt: "?k < length ?cache" by simp_all
    from ci m obtain c' where c': "c' \<in> set (processed r)" "?next \<in> set (chunk_batch h doc c')"
      by (auto simp: cache_inv_def)
    from upper_bound_at [OF lt] s chunk_batch_pos [OF c'(2)]
    have lo: "ir_offset c < i_offset ?next + i_length ?next" by simp
    from batch_overlap_same_chunk [OF cf conjunct1 [OF s] c' lo hi pos] c'(2) m disj
    show False by auto
  qed
  from ne left right show ?thesis by (auto simp: ibo_asserts_def)
qed

lemma set_cache_insert_new: "set new_instructions \<subseteq> set (cache_insert cache k new_instructions)"
  by (auto simp: cache_insert_def)

lemma set_cache_insert_old:
  "\<not> length cache + length new_instructions > INSTRUCTION_CACHE_LIMIT \<Longrightarrow>
     set cache \<subseteq> set (cache_insert cache k new_instructions)"
proof -
  assume "\<not> length cache + length new_instructions > INSTRUCTION_CACHE_LIMIT"
  then have "set (cache_insert cache k new_instructions)
               = set (take k cache) \<union> set (drop k cache) \<union> set new_instructions"
    by (auto simp: cache_insert_def)
  moreover have "set cache = set (take k cache) \<union> set (drop k cache)"
    using set_append [of "take k cache" "drop k cache"] by simp
  ultimately show ?thesis by auto
qed

lemma chunks_cached_refill:
  assumes ri: "region_inv r" and cc: "chunks_cached h doc r" and ci: "cache_inv h doc r"
    and miss: "cache_find (instructions r) abs_offset = None"
    and chunk: "processed_by_offset r abs_offset = Some c"
    and rd: "read_data doc (ir_offset c) (ir_length c) = Inr data"
  shows "chunks_cached h doc
           (r\<lparr>instructions := cache_insert (instructions r)
                 (upper_bound i_offset (instructions r) abs_offset) (chunk_batch h doc c)\<rparr>)"
proof -
  let ?cache = "instructions r"
  let ?k = "upper_bound i_offset ?cache abs_offset"
  let ?new = "chunk_batch h doc c"
  let ?cache' = "cache_insert ?cache ?k ?new"
  from ri have cf: "chunks_from (d_offset r) 0 (processed r)" by (simp add: region_inv_def)
  note s = processed_by_offset_sound [OF chunk]
  from s have pos: "0 < ir_length c" by simp
  from cc have o: "cache_ordered ?cache" by (simp add: chunks_cached_def)
  have o': "cache_ordered ?cache'"
    by (rule cache_insert_ordered [OF o chunk_batch_ordered upper_bound_le
              asserts_hold [OF ri cc ci miss chunk rd]])
  have sub: "set (chunk_batch h doc c') \<subseteq> set ?cache'"
    if c': "c' \<in> set (processed r)" and ne: "set (chunk_batch h doc c') \<inter> set ?cache' \<noteq> {}" for c'
  proof -
    from ne obtain y where y: "y \<in> set (chunk_batch h doc c')" "y \<in> set ?cache'" by auto
    show ?thesis
    proof (cases "y \<in> set ?new")
      case True
      from chunk_batch_bounds [OF True] chunk_batch_pos [OF True]
      have "ir_offset c < i_offset y + i_length y" "i_offset y < ir_offset c + ir_length c" by simp_all
      from batch_overlap_same_chunk [OF cf conjunct1 [OF s] c' y(1) this pos]
      show ?thesis using set_cache_insert_new [of ?new ?cache ?k] by simp
    next
      case False
      with y(2) have old: "y \<in> set ?cache" and small: "\<not> length ?cache + length ?new > INSTRUCTION_CACHE_LIMIT"
        by (auto simp: cache_insert_def dest: in_set_takeD in_set_dropD split: if_splits)
      from cc c' y(1) old have "set (chunk_batch h doc c') \<subseteq> set ?cache"
        by (auto simp: chunks_cached_def)
      with set_cache_insert_old [OF small, of ?k] show ?thesis by blast
    qed
  qed
  from cc o' sub show ?thesis by (simp add: chunks_cached_def)
qed

lemma ibo_total:
  assumes ri: "region_inv r" and cc: "chunks_cached h doc r" and ci: "cache_inv h doc r"
  shows "\<exists>res r'. instruction_by_offset h doc r abs_offset = Some (Inr res, r') \<and> chunks_cached h doc r'"
proof (cases "cache_find (instructions r) abs_offset")
  case (Some x)
  with cc ibo_hit [OF Some, of h doc] show ?thesis by blast
next
  case None
  note miss = None
  show ?thesis
  proof (cases "processed_by_offset r abs_offset")
    case None
    with miss cc show ?thesis by (simp add: instruction_by_offset.simps [of h doc r])
  next
    case (Some c)
    show ?thesis
    proof (cases "read_data doc (ir_offset c) (ir_length c)")
      case (Inl e)
      with miss Some cc show ?thesis by (simp add: instruction_by_offset.simps [of h doc r])
    next
      case (Inr data)
      let ?k = "upper_bound i_offset (instructions r) abs_offset"
      let ?new = "chunk_batch h doc c"
      let ?r' = "r\<lparr>instructions := cache_insert (instructions r) ?k ?new\<rparr>"
      have new: "cs_while h (ibo_body c) data (ir_offset c) [] = ?new"
        using Inr by (simp add: chunk_batch_def)
      note a = asserts_hold [OF ri cc ci miss Some Inr]
      note cc' = chunks_cached_refill [OF ri cc ci miss Some Inr]
      have step: "instruction_by_offset h doc r abs_offset = instruction_by_offset h doc ?r' abs_offset"
        using miss Some Inr a by (subst instruction_by_offset.simps) (simp add: new Let_def)
      note s = processed_by_offset_sound [OF Some]
      from cc s have t: "chunk_tiled h doc c" by (simp add: chunks_cached_def)
      from chunk_batch_tiles(4) [OF t Inr, of abs_offset] s
      obtain x where x: "x \<in> set ?new" "i_offset x \<le> abs_offset" "abs_offset < i_offset x + i_length x"
        by auto
      with set_cache_insert_new [of ?new "instructions r" ?k] have "x \<in> set (instructions ?r')" by auto
      then obtain j where j: "j < length (instructions ?r')" "x = instructions ?r' ! j"
        by (auto simp: in_set_conv_nth)
      from cc' have "cache_ordered (instructions ?r')" by (simp add: chunks_cached_def)
      from cache_find_complete [OF this j(1), of abs_offset] x j
      have "cache_find (instructions ?r') abs_offset = Some x" by simp
      from ibo_hit [OF this, of h doc] step cc' show ?thesis by auto
    qed
  qed
qed

lemma chunks_cached_check:
  assumes st: "prefix_stable h" and ri: "region_inv r" and cc: "chunks_cached h doc r"
    and ci: "cache_inv h doc r"
  shows "chunks_cached h doc (snd (check h doc r))"
proof (rule check_cases [OF ri, where doc = doc and h = h], goal_cases)
  case 1
  with cc show ?thesis by simp
next
  case (2 e)
  with cc show ?thesis by simp
next
  case (3 data)
  let ?c = "step_chunk h doc r"
  note step = check_step [OF ri 3(1) 3(2), of h]
  from check_inv [OF ri, of h doc] have "region_inv (snd (check h doc r))" by simp
  then have cf: "chunks_from (d_offset r) 0 (processed r @ [?c])"
    by (simp add: step region_inv_def)
  have t: "chunk_tiled h doc ?c" by (rule step_chunk_tiled [OF st 3(2)])
  have sub: "set (chunk_batch h doc ?c) \<subseteq> set (instructions r)"
    if ne: "set (chunk_batch h doc ?c) \<inter> set (instructions r) \<noteq> {}"
  proof -
    from ne obtain y where y: "y \<in> set (chunk_batch h doc ?c)" "y \<in> set (instructions r)" by auto
    from ci y(2) obtain c' where c': "c' \<in> set (processed r)" "y \<in> set (chunk_batch h doc c')"
      by (auto simp: cache_inv_def)
    from chunk_batch_bounds [OF y(1)] chunk_batch_pos [OF y(1)]
    have b: "ir_offset ?c < i_offset y + i_length y" "i_offset y < ir_offset ?c + ir_length ?c"
      "0 < ir_length ?c" by simp_all
    from batch_overlap_same_chunk [OF cf _ _ c'(2) b] c'(1) have "c' = ?c" by simp
    with cc c' y(2) show ?thesis by (auto simp: chunks_cached_def)
  qed
  from cc t sub show ?thesis by (simp add: step chunks_cached_def)
qed

lemma run_chunks_cached:
  assumes "run h calls r = Some r'" and "prefix_stable h" and "region_inv r"
    and "chunks_cached h doc r" and "cache_inv h doc r"
    and "\<forall>c \<in> set calls. fst c = doc"
  shows "chunks_cached h doc r'"
  using assms
proof (induction h calls r rule: run.induct)
  case (1 h r)
  then show ?case by simp
next
  case (2 h doc' calls r)
  from 2(7) have d: "doc' = doc" by simp
  from check_inv [OF 2(4), of h doc] cache_inv_check [OF 2(4,6), of doc]
       chunks_cached_check [OF 2(3,4,5,6)] 2(1) [OF _ 2(3)] 2(2,7)
  show ?case by (simp add: d)
next
  case (3 h doc' abs_offset calls r)
  from 3(7) have d: "doc' = doc" by simp
  from 3(2) obtain res r1 where l: "instruction_by_offset h doc r abs_offset = Some (res, r1)"
    and rest: "run h calls r1 = Some r'"
    by (auto simp: d split: option.splits)
  from ibo_only_cache [OF l] obtain cache where r1: "r1 = r\<lparr>instructions := cache\<rparr>" by auto
  from ibo_cache_inv [OF l 3(6)] have ci: "cache_inv h doc r1" by simp
  from ibo_total [OF 3(4,5,6), of abs_offset] l have cc: "chunks_cached h doc r1" by auto
  from 3(1) [OF l [folded d] refl rest 3(3) _ cc ci] 3(4,7) r1 show ?case by simp
qed

lemma processed_area_has_chunk:
  assumes ri: "region_inv r" and lo: "d_offset r \<le> abs_offset" and hi: "abs_offset < unprocessed_offset r"
  shows "\<exists>c. processed_by_offset r abs_offset = Some c"
proof -
  from ri have cf: "chunks_from (d_offset r) 0 (processed r)" by (simp add: region_inv_def)
  from hi lo have ne: "processed r \<noteq> []" by (auto simp: unprocessed_offset_def)
  from chunks_from_last [OF cf ne] hi
  have "abs_offset < d_offset r + sum_list (map ir_length (processed r))"
    by (simp add: unprocessed_offset_def ne)
  with lo chunk_spans [OF cf]
  have "abs_offset \<in> (\<Union>c \<in> set (processed r). {ir_offset c ..< ir_offset c + ir_length c})" by simp
  then obtain c where c: "c \<in> set (processed r)" "ir_offset c \<le> abs_offset" "abs_offset < ir_offset c + ir_length c"
    by auto
  then obtain j where "j < length (processed r)" "c = processed r ! j" by (auto simp: in_set_conv_nth)
  with processed_by_offset_complete [OF cf this(1), of abs_offset] c show ?thesis by auto
qed

lemma example_handle_stable: "prefix_stable example_handle"
  unfolding prefix_stable_def
proof (intro allI impI)
  fix code :: "byte list" and address sz mn ops n
  assume a: "example_handle code address = Some (sz, mn, ops) \<and> 0 < sz \<and> sz \<le> length code \<and> sz \<le> n"
  then obtain b rest where code: "code = b # rest" by (cases code) (auto simp: example_handle_def)
  from a obtain m where n: "n = Suc m" by (cases n) auto
  show "example_handle (take n code) address = Some (sz, mn, ops)"
    using a by (cases rest; cases m) (auto simp: code n example_handle_def split: if_splits)
qed

lemma example_run5:
  "run example_handle [(example_document, Step), (example_document, Lookup 3)] (new_region 0 4 0)
     = Some example_region5"
  by (simp add: eval_simps check_def new_region_def example_document_def SOFT_IR_LIMIT_def
        example_handle_def check_body_def IDLE_def brs_empty_def example_region5_def)

lemma read_data_same_bytes:
  assumes "doc_contents d1 = doc_contents d2" and "read_data d1 off n = Inr data"
    and "\<not> doc_unreadable d2 off n"
  shows "read_data d2 off n = Inr data"
  using assms by (auto simp: read_data_def split: if_splits)

lemma ibo_same_reads_aux:
  assumes "instruction_by_offset h d1 r abs_offset = Some y"
    and "\<And>c. processed_by_offset r abs_offset = Some c \<Longrightarrow>
           read_data d1 (ir_offset c) (ir_length c) = read_data d2 (ir_offset c) (ir_length c)"
  shows "instruction_by_offset h d2 r abs_offset = Some y"
proof -
  have "(\<forall>c. processed_by_offset r abs_offset = Some c \<longrightarrow>
           read_data d1 (ir_offset c) (ir_length c) = read_data d2 (ir_offset c) (ir_length c))
        \<longrightarrow> instruction_by_offset h d2 r abs_offset = Some y"
    using assms(1)
  proof (induction rule: ibo_induct)
    case (hit r i)
    then show ?case by (simp add: ibo_hit)
  next
    case (no_chunk r)
    then show ?case by (simp add: instruction_by_offset.simps [of h d2 r])
  next
    case (read_failed r ir e)
    show ?case
    proof
      assume "\<forall>c. processed_by_offset r abs_offset = Some c \<longrightarrow>
           read_data d1 (ir_offset c) (ir_length c) = read_data d2 (ir_offset c) (ir_length c)"
      with read_failed(2,3) have "read_data d2 (ir_offset ir) (ir_length ir) = Inl e" by simp
      with read_failed(1,2) show "instruction_by_offset h d2 r abs_offset = Some (Inr None, r)"
        by (simp add: instruction_by_offset.simps [of h d2 r])
    qed
  next
    case (assert_failed r ir ir_data)
    show ?case
    proof
      assume "\<forall>c. processed_by_offset r abs_offset = Some c \<longrightarrow>
           read_data d1 (ir_offset c) (ir_length c) = read_data d2 (ir_offset c) (ir_length c)"
      with assert_failed(2,3) have "read_data d2 (ir_offset ir) (ir_length ir) = Inr ir_data" by simp
      with assert_failed(1,2,4) show "instruction_by_offset h d2 r abs_offset = Some (Inl AssertionFailed, r)"
        by (simp add: instruction_by_offset.simps [of h d2 r] Let_def)
    qed
  next
    case (refill r ir ir_data y)
    show ?case
    proof
      assume s: "\<forall>c. processed_by_offset r abs_offset = Some c \<longrightarrow>
           read_data d1 (ir_offset c) (ir_length c) = read_data d2 (ir_offset c) (ir_length c)"
      with refill(2,3) have rd: "read_data d2 (ir_offset ir) (ir_length ir) = Inr ir_data" by simp
      from refill(6) s have "instruction_by_offset h d2
                       (r\<lparr>instructions := cache_insert (instructions r)
                            (upper_bound i_offset (instructions r) abs_offset)
                            (cs_while h (ibo_body ir) ir_data (ir_offset ir) [])\<rparr>) abs_offset = Some y"
        by simp
      with refill(1,2,4) rd show "instruction_by_offset h d2 r abs_offset = Some y"
        by (subst instruction_by_offset.simps) (simp add: Let_def)
    qed
  qed
  with assms(2) show ?thesis by blast
qed

lemma ibo_same_reads:
  assumes "\<And>c. processed_by_offset r abs_offset = Some c \<Longrightarrow>
           read_data d1 (ir_offset c) (ir_length c) = read_data d2 (ir_offset c) (ir_length c)"
  shows "instruction_by_offset h d1 r abs_offset = instruction_by_offset h d2 r abs_offset"
proof (cases "instruction_by_offset h d1 r abs_offset")
  case (Some y)
  from ibo_same_reads_aux [OF Some assms] Some show ?thesis by simp
next
  case None
  show ?thesis
  proof (cases "instruction_by_offset h d2 r abs_offset")
    case (Some y)
    from ibo_same_reads_aux [OF Some assms [symmetric]] None show ?thesis by simp
  next
    case None': None
    with None show ?thesis by simp
  qed
qed

lemma check_same_bytes:
  assumes b: "doc_contents d1 = doc_contents d2" and nf: "\<And>off n. \<not> doc_unreadable d2 off n"
  shows "snd (check h d1 r) = r \<or> check h d1 r = check h d2 r"
proof (cases "dirty r")
  case Nil
  then show ?thesis by (simp add: check_def)
next
  case (Cons first_dirty_range rest)
  show ?thesis
  proof (cases "read_data d1 (fst first_dirty_range) (min (snd first_dirty_range) SOFT_IR_LIMIT)")
    case (Inl e)
    with Cons show ?thesis by (simp add: check_def)
  next
    case (Inr data)
    from read_data_same_bytes [OF b Inr nf] Inr Cons have "check h d1 r = check h d2 r"
      by (simp add: check_def)
    then show ?thesis ..
  qed
qed

lemma ibo_same_bytes:
  assumes l: "instruction_by_offset h d1 r abs_offset = Some (res, r1)"
    and b: "doc_contents d1 = doc_contents d2" and nf: "\<And>off n. \<not> doc_unreadable d2 off n"
  shows "r1 = r \<or> instruction_by_offset h d2 r abs_offset = Some (res, r1)"
proof (cases "cache_find (instructions r) abs_offset")
  case (Some x)
  from ibo_hit [OF Some, of h d1] l show ?thesis by simp
next
  case None
  note miss = None
  show ?thesis
  proof (cases "processed_by_offset r abs_offset")
    case None
    with miss l show ?thesis by (simp add: instruction_by_offset.simps [of h d1 r])
  next
    case (Some c)
    show ?thesis
    proof (cases "read_data d1 (ir_offset c) (ir_length c)")
      case (Inl e)
      with miss Some l show ?thesis by (simp add: instruction_by_offset.simps [of h d1 r])
    next
      case (Inr data)
      from read_data_same_bytes [OF b Inr nf] Inr Some
      have "instruction_by_offset h d1 r abs_offset = instruction_by_offset h d2 r abs_offset"
        by (intro ibo_same_reads) simp
      with l show ?thesis by simp
    qed
  qed
qed

lemma run_same_bytes:
  assumes "run h calls r0 = Some r"
    and "\<forall>call \<in> set calls. doc_contents (fst call) = doc_contents d"
    and "\<And>off n. \<not> doc_unreadable d off n"
  shows "\<exists>calls'. (\<forall>call \<in> set calls'. fst call = d) \<and> run h calls' r0 = Some r"
  using assms
proof (induction h calls r0 rule: run.induct)
  case (1 h r0)
  have "run h [] r0 = Some r0" by simp
  with 1 show ?case by (intro exI [of _ "[]"]) simp
next
  case (2 h doc' calls r0)
  from 2(3) have b: "doc_contents doc' = doc_contents d" by simp
  from 2(2) have rest: "run h calls (snd (check h doc' r0)) = Some r" by simp
  from 2(1) [OF rest _ 2(4)] 2(3)
  obtain calls' where c: "\<forall>call \<in> set calls'. fst call = d" "run h calls' (snd (check h doc' r0)) = Some r"
    by auto
  from check_same_bytes [OF b 2(4), of h r0] show ?case
  proof
    assume "snd (check h doc' r0) = r0"
    with c show ?thesis by auto
  next
    assume "check h doc' r0 = check h d r0"
    with c have "run h ((d, Step) # calls') r0 = Some r" by simp
    with c(1) show ?thesis by (intro exI [of _ "(d, Step) # calls'"]) simp
  qed
next
  case (3 h doc' abs_offset calls r0)
  from 3(3) have b: "doc_contents doc' = doc_contents d" by simp
  from 3(2) obtain res r1 where l: "instruction_by_offset h doc' r0 abs_offset = Some (res, r1)"
    and rest: "run h calls r1 = Some r"
    by (auto split: option.splits)
  from 3(1) [OF l refl rest _ 3(4)] 3(3)
  obtain calls' where c: "\<forall>call \<in> set calls'. fst call = d" "run h calls' r1 = Some r"
    by auto
  from ibo_same_bytes [OF l b 3(4)] show ?case
  proof
    assume "r1 = r0"
    with c show ?thesis by auto
  next
    assume "instruction_by_offset h d r0 abs_offset = Some (res, r1)"
    with c have "run h ((d, Lookup abs_offset) # calls') r0 = Some r" by simp
    with c(1) show ?thesis by (intro exI [of _ "(d, Lookup abs_offset) # calls'"]) simp
  qed
qed

lemma example_run6:
  "run example_handle [(unreadable_at 0, Step), (example_document, Step)] (new_region 0 4 0)
     = Some (example_region5\<lparr>instructions := []\<rparr>)"
  by (simp add: eval_simps check_def new_region_def example_document_def unreadable_at_def SOFT_IR_LIMIT_def
        example_handle_def check_body_def IDLE_def brs_empty_def example_region5_def)

lemma chunks_cached_whole: "chunks_cached h doc r \<Longrightarrow> cache_whole h doc r"
  by (simp add: chunks_cached_def cache_whole_def)

lemma miss_no_batch_cover:
  assumes cw: "cache_whole h doc r" and c: "c \<in> set (processed r)"
    and miss: "cache_find (instructions r) abs_offset = None"
    and x: "x \<in> set (chunk_batch h doc c)" "i_offset x \<le> abs_offset" "abs_offset < i_offset x + i_length x"
  shows "set (chunk_batch h doc c) \<inter> set (instructions r) = {}"
proof (rule ccontr)
  assume ne: "set (chunk_batch h doc c) \<inter> set (instructions r) \<noteq> {}"
  from cw c ne have sub: "set (chunk_batch h doc c) \<subseteq> set (instructions r)"
    and o: "cache_ordered (instructions r)"
    by (auto simp: cache_whole_def)
  from x(1) sub have "x \<in> set (instructions r)" by blast
  then obtain j where j: "j < length (instructions r)" "x = instructions r ! j"
    by (auto simp: in_set_conv_nth)
  from cache_find_complete [OF o j(1), of abs_offset] x j miss show False by simp
qed

lemma asserts_hold_cover:
  assumes ri: "region_inv r" and cw: "cache_whole h doc r" and ci: "cache_inv h doc r"
    and miss: "cache_find (instructions r) abs_offset = None"
    and chunk: "processed_by_offset r abs_offset = Some c"
    and x: "x \<in> set (chunk_batch h doc c)" "i_offset x \<le> abs_offset" "abs_offset < i_offset x + i_length x"
  shows "ibo_asserts (instructions r) (upper_bound i_offset (instructions r) abs_offset) (chunk_batch h doc c)"
proof -
  let ?cache = "instructions r"
  let ?k = "upper_bound i_offset ?cache abs_offset"
  let ?new = "chunk_batch h doc c"
  from ri have cf: "chunks_from (d_offset r) 0 (processed r)" by (simp add: region_inv_def)
  note s = processed_by_offset_sound [OF chunk]
  from s have pos: "0 < ir_length c" by simp
  note disj = miss_no_batch_cover [OF cw conjunct1 [OF s] miss x]
  have k: "?k \<le> length ?cache" by (rule upper_bound_le)
  from x(1) have ne: "?new \<noteq> []" by auto
  from chunk_batch_bounds [of "hd ?new" h doc c] ne have first: "ir_offset c \<le> i_offset (hd ?new)" by simp
  from chunk_batch_bounds [of "last ?new" h doc c] ne
  have final: "i_offset (last ?new) + i_length (last ?new) \<le> ir_offset c + ir_length c" by simp
  have left: "i_offset (?cache ! (?k - 1)) + i_length (?cache ! (?k - 1)) \<le> i_offset (hd ?new)" if k0: "?k \<noteq> 0"
  proof (rule ccontr)
    let ?prev = "?cache ! (?k - 1)"
    assume "\<not> i_offset ?prev + i_length ?prev \<le> i_offset (hd ?new)"
    with first have lo: "ir_offset c < i_offset ?prev + i_length ?prev" by simp
    from k0 k have m: "?prev \<in> set ?cache" by simp
    from k0 upper_bound_before [of "?k - 1" i_offset ?cache abs_offset] s
    have hi: "i_offset ?prev < ir_offset c + ir_length c" by simp
    from ci m obtain c' where c': "c' \<in> set (processed r)" "?prev \<in> set (chunk_batch h doc c')"
      by (auto simp: cache_inv_def)
    from batch_overlap_same_chunk [OF cf conjunct1 [OF s] c' lo hi pos] c'(2) m disj
    show False by auto
  qed
  have right: "i_offset (?cache ! ?k) \<ge> i_offset (last ?new) + i_length (last ?new)" if kl: "?k \<noteq> length ?cache"
  proof (rule ccontr)
    let ?next = "?cache ! ?k"
    assume "\<not> i_offset ?next \<ge> i_offset (last ?new) + i_length (last ?new)"
    with final have hi: "i_offset ?next < ir_offset c + ir_length c" by simp
    from kl k have m: "?next \<in> set ?cache" and lt: "?k < length ?cache" by simp_all
    from ci m obtain c' where c': "c' \<in> set (processed r)" "?next \<in> set (chunk_batch h doc c')"
      by (auto simp: cache_inv_def)
    from upper_bound_at [OF lt] s chunk_batch_pos [OF c'(2)]
    have lo: "ir_offset c < i_offset ?next + i_length ?next" by simp
    from batch_overlap_same_chunk [OF cf conjunct1 [OF s] c' lo hi pos] c'(2) m disj
    show False by auto
  qed
  from ne left right show ?thesis by (auto simp: ibo_asserts_def)
qed

lemma cache_whole_refill:
  assumes ri: "region_inv r" and cw: "cache_whole h doc r"
    and chunk: "processed_by_offset r abs_offset = Some c"
    and a: "ibo_asserts (instructions r) (upper_bound i_offset (instructions r) abs_offset)
              (chunk_batch h doc c)"
  shows "cache_whole h doc
           (r\<lparr>instructions := cache_insert (instructions r)
                 (upper_bound i_offset (instructions r) abs_offset) (chunk_batch h doc c)\<rparr>)"
proof -
  let ?cache = "instructions r"
  let ?k = "upper_bound i_offset ?cache abs_offset"
  let ?new = "chunk_batch h doc c"
  let ?cache' = "cache_insert ?cache ?k ?new"
  from ri have cf: "chunks_from (d_offset r) 0 (processed r)" by (simp add: region_inv_def)
  note s = processed_by_offset_sound [OF chunk]
  from s have pos: "0 < ir_length c" by simp
  from cw have o: "cache_ordered ?cache" by (simp add: cache_whole_def)
  have o': "cache_ordered ?cache'"
    by (rule cache_insert_ordered [OF o chunk_batch_ordered upper_bound_le a])
  have sub: "set (chunk_batch h doc c') \<subseteq> set ?cache'"
    if c': "c' \<in> set (processed r)" and ne: "set (chunk_batch h doc c') \<inter> set ?cache' \<noteq> {}" for c'
  proof -
    from ne obtain y where y: "y \<in> set (chunk_batch h doc c')" "y \<in> set ?cache'" by auto
    show ?thesis
    proof (cases "y \<in> set ?new")
      case True
      from chunk_batch_bounds [OF True] chunk_batch_pos [OF True]
      have "ir_offset c < i_offset y + i_length y" "i_offset y < ir_offset c + ir_length c" by simp_all
      from batch_overlap_same_chunk [OF cf conjunct1 [OF s] c' y(1) this pos]
      show ?thesis using set_cache_insert_new [of ?new ?cache ?k] by simp
    next
      case False
      with y(2) have old: "y \<in> set ?cache" and small: "\<not> length ?cache + length ?new > INSTRUCTION_CACHE_LIMIT"
        by (auto simp: cache_insert_def dest: in_set_takeD in_set_dropD split: if_splits)
      from cw c' y(1) old have "set (chunk_batch h doc c') \<subseteq> set ?cache"
        by (auto simp: cache_whole_def)
      with set_cache_insert_old [OF small, of ?k] show ?thesis by blast
    qed
  qed
  from o' sub show ?thesis by (simp add: cache_whole_def)
qed

lemma ibo_cache_whole:
  assumes "instruction_by_offset h doc r abs_offset = Some y" and "region_inv r" and "cache_whole h doc r"
  shows "cache_whole h doc (snd y)"
  using assms
proof (induction rule: ibo_induct)
  case (refill r ir ir_data y)
  let ?new = "cs_while h (ibo_body ir) ir_data (ir_offset ir) []"
  let ?r' = "r\<lparr>instructions := cache_insert (instructions r)
                (upper_bound i_offset (instructions r) abs_offset) ?new\<rparr>"
  have new: "?new = chunk_batch h doc ir" using refill(3) by (simp add: chunk_batch_def)
  have ri': "region_inv ?r'" using refill(7) by simp
  have "cache_whole h doc ?r'"
    using cache_whole_refill [OF refill(7,8,2)] refill(4) by (simp add: new)
  from refill(6) [OF ri' this] show ?case .
qed auto

lemma cache_whole_check:
  assumes ri: "region_inv r" and cw: "cache_whole h doc r" and ci: "cache_inv h doc r"
  shows "cache_whole h doc (snd (check h doc r))"
proof (rule check_cases [OF ri, where doc = doc and h = h], goal_cases)
  case 1
  with cw show ?thesis by simp
next
  case (2 e)
  with cw show ?thesis by simp
next
  case (3 data)
  let ?c = "step_chunk h doc r"
  note step = check_step [OF ri 3(1) 3(2), of h]
  from check_inv [OF ri, of h doc] have "region_inv (snd (check h doc r))" by simp
  then have cf: "chunks_from (d_offset r) 0 (processed r @ [?c])"
    by (simp add: step region_inv_def)
  have sub: "set (chunk_batch h doc ?c) \<subseteq> set (instructions r)"
    if ne: "set (chunk_batch h doc ?c) \<inter> set (instructions r) \<noteq> {}"
  proof -
    from ne obtain y where y: "y \<in> set (chunk_batch h doc ?c)" "y \<in> set (instructions r)" by auto
    from ci y(2) obtain c' where c': "c' \<in> set (processed r)" "y \<in> set (chunk_batch h doc c')"
      by (auto simp: cache_inv_def)
    from chunk_batch_bounds [OF y(1)] chunk_batch_pos [OF y(1)]
    have b: "ir_offset ?c < i_offset y + i_length y" "i_offset y < ir_offset ?c + ir_length ?c"
      "0 < ir_length ?c" by simp_all
    from batch_overlap_same_chunk [OF cf _ _ c'(2) b] c'(1) have "c' = ?c" by simp
    with cw c' y(2) show ?thesis by (auto simp: cache_whole_def)
  qed
  from cw sub show ?thesis by (simp add: step cache_whole_def)
qed

lemma run_cache_whole:
  assumes "run h calls r = Some r'" and "region_inv r"
    and "cache_whole h doc r" and "cache_inv h doc r"
    and "\<forall>c \<in> set calls. fst c = doc"
  shows "cache_whole h doc r'"
  using assms
proof (induction h calls r rule: run.induct)
  case (1 h r)
  then show ?case by simp
next
  case (2 h doc' calls r)
  from 2(6) have d: "doc' = doc" by simp
  from check_inv [OF 2(3), of h doc] cache_inv_check [OF 2(3,5), of doc]
       cache_whole_check [OF 2(3,4,5)] 2(1) 2(2,6)
  show ?case by (simp add: d)
next
  case (3 h doc' abs_offset calls r)
  from 3(6) have d: "doc' = doc" by simp
  from 3(2) obtain res r1 where l: "instruction_by_offset h doc r abs_offset = Some (res, r1)"
    and rest: "run h calls r1 = Some r'"
    by (auto simp: d split: option.splits)
  from ibo_only_cache [OF l] obtain cache where r1: "r1 = r\<lparr>instructions := cache\<rparr>" by auto
  from ibo_cache_inv [OF l 3(5)] have ci: "cache_inv h doc r1" by simp
  from ibo_cache_whole [OF l 3(3,4)] have cw: "cache_whole h doc r1" by simp
  from 3(1) [OF l [folded d] refl rest _ cw ci] 3(3,6) r1 show ?case by simp
qed

text \<open>
  A handle may look at the bytes behind the instruction it decodes. Then a chunk need not
  decode again to the instructions it was built from. With the handle that looks one byte
  ahead, the lookup of offset 0 reads the one byte of the chunk, decodes nothing, passes
  both assertions with its empty cache, and calls itself with the cache as it was: it
  never returns, over unchanged bytes and with every read succeeding.
\<close>

lemma lookahead_run:
  "run lookahead_handle [(nop_document, Step)] (new_region 0 2 0) = Some lookahead_region"
  by (simp add: check_def new_region_def nop_document_def SOFT_IR_LIMIT_def read_data_def
        cs_while.simps cs_disasm_iter_def Let_def
        lookahead_handle_def check_body_def IDLE_def brs_empty_def lookahead_region_def)

lemma lookahead_lookup_never_returns:
  "instruction_by_offset lookahead_handle nop_document lookahead_region 0 = None"
proof (rule ccontr)
  assume "instruction_by_offset lookahead_handle nop_document lookahead_region 0 \<noteq> None"
  then obtain y where y: "instruction_by_offset lookahead_handle nop_document lookahead_region 0 = Some y"
    by auto
  have "(h, doc, r, abs_offset) \<noteq> (lookahead_handle, nop_document, lookahead_region, 0)"
    if "instruction_by_offset h doc r abs_offset = Some y" for h doc r abs_offset y
  proof (rule instruction_by_offset.raw_induct
           [where P = "\<lambda>h doc r abs_offset y.
                         (h, doc, r, abs_offset) \<noteq> (lookahead_handle, nop_document, lookahead_region, 0)",
            OF _ that],
         goal_cases)
    case (1 f h doc r abs_offset y)
    show ?case
    proof
      assume "(h, doc, r, abs_offset) = (lookahead_handle, nop_document, lookahead_region, 0)"
      then have e: "h = lookahead_handle" "doc = nop_document" "r = lookahead_region" "abs_offset = 0"
        by simp_all
      from 1(2) have "f lookahead_handle nop_document lookahead_region 0 = Some y"
        unfolding e
        by (simp add: cache_find_def upper_bound_def processed_by_offset_def read_data_def
              cs_while.simps cs_disasm_iter_def ibo_asserts_def cache_insert_def
              INSTRUCTION_CACHE_LIMIT_def Let_def lookahead_region_def nop_document_def
              lookahead_handle_def)
      from 1(1) [OF this] show False by simp
    qed
  qed
  from this [OF y] show False by simp
qed

text \<open>
  Claim C3, as the source has it. A lookup that finds the instruction in the cache returns
  it without reading the document, and a lookup that misses reads the chunk again: the
  cache can be rebuilt only while the document can be read. In the counterexample the
  bytes of the document are unchanged and its reads fail; the lookup of offset 1 is
  answered from the cache, and the same lookup after the cache was cleared returns the
  empty result. What holds is this. Take a region that a new region becomes by steps and
  lookups over documents with the same bytes, whether their reads fail or not; an offset
  inside a chunk of the region; and a document with those bytes on which the read of that
  chunk succeeds. The batch is what the decoding loop of the lookup yields from the bytes
  of the chunk. When an instruction of the batch covers the offset, the lookup returns it,
  whatever the cache holds; the same lookup made again returns it and leaves the region as
  it is; and the lookup made after the cache was cleared returns it. A handle whose
  decoding of an instruction does not depend on the bytes behind it yields such an
  instruction. And the lookup returns no instruction but one of the batch that covers the
  offset.
\<close>

theorem lookup_repeatable:
  assumes "0 \<le> len"
    and "\<forall>call \<in> set calls. doc_contents (fst call) = doc_contents doc"
    and "run h calls (new_region offset len indent) = Some r"
    and "c \<in> set (processed r)" and "ir_offset c \<le> abs_offset" and "abs_offset < ir_offset c + ir_length c"
    and "read_data doc (ir_offset c) (ir_length c) = Inr data"
  shows "(prefix_stable h \<longrightarrow>
            (\<exists>x \<in> set (cs_while h (ibo_body c) data (ir_offset c) []).
               i_offset x \<le> abs_offset \<and> abs_offset < i_offset x + i_length x))
       \<and> (\<forall>x \<in> set (cs_while h (ibo_body c) data (ir_offset c) []).
            i_offset x \<le> abs_offset \<and> abs_offset < i_offset x + i_length x \<longrightarrow>
              (\<exists>r'. instruction_by_offset h doc r abs_offset = Some (Inr (Some x), r')
                 \<and> instruction_by_offset h doc r' abs_offset = Some (Inr (Some x), r')
                 \<and> (\<exists>r''. instruction_by_offset h doc (r'\<lparr>instructions := []\<rparr>) abs_offset
                             = Some (Inr (Some x), r''))))
       \<and> (\<forall>x r'. instruction_by_offset h doc r abs_offset = Some (Inr (Some x), r') \<longrightarrow>
            x \<in> set (cs_while h (ibo_body c) data (ir_offset c) [])
            \<and> i_offset x \<le> abs_offset \<and> abs_offset < i_offset x + i_length x)"
proof -
  let ?d = "doc\<lparr>doc_unreadable := (\<lambda>offset len. False)\<rparr>"
  let ?batch = "cs_while h (ibo_body c) data (ir_offset c) []"
  have nf: "\<And>off n. \<not> doc_unreadable ?d off n" by simp
  from assms(2) have b: "\<forall>call \<in> set calls. doc_contents (fst call) = doc_contents ?d" by simp
  from run_same_bytes [OF assms(3) b nf]
  obtain calls' where same: "\<forall>call \<in> set calls'. fst call = ?d"
    and run': "run h calls' (new_region offset len indent) = Some r" by blast
  note inv = run_new_inv [OF assms(1) run']
  have ci0: "cache_inv h ?d (new_region offset len indent)"
    by (simp add: cache_inv_def new_region_def)
  have cc0: "chunks_cached h ?d (new_region offset len indent)"
    by (simp add: chunks_cached_def new_region_def cache_ordered_def)
  note cw0 = chunks_cached_whole [OF cc0]
  note ri0 = region_inv_new [OF assms(1), of offset indent]
  from run_cache_inv [OF run' ri0 ci0 same] have ci: "cache_inv h ?d r" .
  from run_cache_whole [OF run' ri0 cw0 ci0 same] have cw: "cache_whole h ?d r" .
  from inv(1) have cf: "chunks_from (d_offset r) 0 (processed r)" by (simp add: region_inv_def)
  from assms(4) obtain j where j: "j < length (processed r)" "c = processed r ! j"
    by (auto simp: in_set_conv_nth)
  from processed_by_offset_complete [OF cf j(1), of abs_offset] assms(5,6) j
  have chunk: "processed_by_offset r abs_offset = Some c" by simp
  have rd: "read_data ?d (ir_offset c) (ir_length c) = Inr data"
    by (rule read_data_same_bytes [OF _ assms(7)]) simp_all
  have batch: "chunk_batch h ?d c = ?batch" "chunk_batch h doc c = ?batch"
    using assms(7) rd by (simp_all add: chunk_batch_def)
  have eq: "instruction_by_offset h doc r0 abs_offset = instruction_by_offset h ?d r0 abs_offset"
    if "processed_by_offset r0 abs_offset = Some c" for r0
    using that assms(7) rd by (intro ibo_same_reads) simp
  have stable: "\<exists>x \<in> set ?batch. i_offset x \<le> abs_offset \<and> abs_offset < i_offset x + i_length x"
    if st: "prefix_stable h"
  proof -
    from run_chunks_cached [OF run' st ri0 cc0 ci0 same] assms(4)
    have "chunk_tiled h ?d c" by (simp add: chunks_cached_def)
    from chunk_batch_tiles(4) [OF this rd assms(5,6)] show ?thesis by (simp add: batch)
  qed
  have found: "\<exists>r'. instruction_by_offset h doc r abs_offset = Some (Inr (Some x), r')
                 \<and> instruction_by_offset h doc r' abs_offset = Some (Inr (Some x), r')
                 \<and> (\<exists>r''. instruction_by_offset h doc (r'\<lparr>instructions := []\<rparr>) abs_offset
                             = Some (Inr (Some x), r''))"
    if x: "x \<in> set ?batch" and cov: "i_offset x \<le> abs_offset" "abs_offset < i_offset x + i_length x" for x
  proof -
    from x obtain i where i: "i < length (chunk_batch h ?d c)" "x = chunk_batch h ?d c ! i"
      by (auto simp: in_set_conv_nth batch)
    from cache_find_complete [OF chunk_batch_ordered i(1), of abs_offset] cov i
    have f: "cache_find (chunk_batch h doc c) abs_offset = Some x" by (simp add: batch)
    have first: "\<exists>r'. instruction_by_offset h ?d r abs_offset = Some (Inr (Some x), r')
                   \<and> cache_find (instructions r') abs_offset = Some x
                   \<and> processed_by_offset r' abs_offset = Some c"
    proof (cases "cache_find (instructions r) abs_offset")
      case (Some x')
      from cache_hit_in_batch [OF inv(1) ci Some] chunk f have "x' = x" by (simp add: batch)
      with Some ibo_hit [OF Some, of h ?d] chunk show ?thesis by auto
    next
      case None
      let ?k = "upper_bound i_offset (instructions r) abs_offset"
      let ?r' = "r\<lparr>instructions := cache_insert (instructions r) ?k ?batch\<rparr>"
      from x have xb: "x \<in> set (chunk_batch h ?d c)" by (simp add: batch)
      note a = asserts_hold_cover [OF inv(1) cw ci None chunk xb cov]
      from cache_whole_refill [OF inv(1) cw chunk a]
      have o': "cache_ordered (instructions ?r')" by (simp add: cache_whole_def batch)
      have step: "instruction_by_offset h ?d r abs_offset = instruction_by_offset h ?d ?r' abs_offset"
        using None chunk rd a by (subst instruction_by_offset.simps) (simp add: batch Let_def)
      from x set_cache_insert_new [of ?batch "instructions r" ?k] have "x \<in> set (instructions ?r')" by auto
      then obtain j where j: "j < length (instructions ?r')" "x = instructions ?r' ! j"
        by (auto simp: in_set_conv_nth)
      from cache_find_complete [OF o' j(1), of abs_offset] cov j
      have hit: "cache_find (instructions ?r') abs_offset = Some x" by simp
      from ibo_hit [OF hit, of h ?d] step hit chunk show ?thesis by auto
    qed
    then obtain r' where ret: "instruction_by_offset h ?d r abs_offset = Some (Inr (Some x), r')"
      and hit: "cache_find (instructions r') abs_offset = Some x"
      and chunk': "processed_by_offset r' abs_offset = Some c" by blast
    have p: "processed_by_offset (r'\<lparr>instructions := []\<rparr>) abs_offset = Some c"
      using chunk' by simp
    have 1: "instruction_by_offset h doc r abs_offset = Some (Inr (Some x), r')"
      using eq [OF chunk] ret by simp
    have 2: "instruction_by_offset h doc r' abs_offset = Some (Inr (Some x), r')"
      by (rule ibo_hit [OF hit])
    have 3: "instruction_by_offset h doc (r'\<lparr>instructions := []\<rparr>) abs_offset
               = Some (Inr (Some x), r'\<lparr>instructions := chunk_batch h doc c\<rparr>)"
      using ibo_from_empty_cache [OF _ p, of h doc x] f by simp
    from 1 2 3 show ?thesis by blast
  qed
  have only: "x \<in> set ?batch \<and> i_offset x \<le> abs_offset \<and> abs_offset < i_offset x + i_length x"
    if ret: "instruction_by_offset h doc r abs_offset = Some (Inr (Some x), r')" for x r'
  proof -
    from ret eq [OF chunk] have ret': "instruction_by_offset h ?d r abs_offset = Some (Inr (Some x), r')"
      by simp
    note facts = ibo_cache_inv [OF ret' ci, simplified]
    then have hit: "cache_find (instructions r') abs_offset = Some x" and ci': "cache_inv h ?d r'"
      by simp_all
    from ibo_only_cache [OF ret'] obtain cache where r': "r' = r\<lparr>instructions := cache\<rparr>" by auto
    have ri': "region_inv r'" using inv(1) by (simp add: r')
    from cache_hit_in_batch [OF ri' ci' hit] chunk
    have "cache_find ?batch abs_offset = Some x" by (simp add: r' batch)
    from cache_find_sound [OF this] show ?thesis .
  qed
  from stable found only show ?thesis by blast
qed

theorem lookup_repeatable_witness:
  "prefix_stable example_handle
   \<and> run example_handle [(unreadable_at 0, Step), (example_document, Step)] (new_region 0 4 0)
       = Some (example_region5\<lparr>instructions := []\<rparr>)
   \<and> cs_while example_handle (ibo_body (hd (processed example_region5))) [0x90, 0xB0, 0x01, 0x07] 0 []
       = instructions example_region5
   \<and> instruction_by_offset example_handle example_document (example_region5\<lparr>instructions := []\<rparr>) 1
       = Some (Inr (Some (instructions example_region5 ! 1)), example_region5)
   \<and> instruction_by_offset example_handle example_document example_region5 1
       = Some (Inr (Some (instructions example_region5 ! 1)), example_region5)"
proof -
  have len: "(0::int) \<le> 4" by simp
  have docs: "\<forall>call \<in> set [(unreadable_at 0, Step), (example_document, Step)].
                doc_contents (fst call) = doc_contents example_document"
    by (simp add: unreadable_at_def example_document_def)
  let ?c = "hd (processed example_region5)"
  let ?x = "instructions example_region5 ! 1"
  have c: "?c \<in> set (processed (example_region5\<lparr>instructions := []\<rparr>))"
    "ir_offset ?c \<le> 1" "1 < ir_offset ?c + ir_length ?c"
    by (simp_all add: example_region5_def)
  have rd: "read_data example_document (ir_offset ?c) (ir_length ?c) = Inr [0x90, 0xB0, 0x01, 0x07]"
    by (simp add: read_data_def example_document_def example_region5_def)
  have off: "ir_offset ?c = 0" by (simp add: example_region5_def)
  have batch: "cs_while example_handle (ibo_body ?c) [0x90, 0xB0, 0x01, 0x07] 0 []
                 = instructions example_region5"
    by (simp add: cs_while.simps cs_disasm_iter_def example_handle_def ibo_body_def format_disasm_def
          example_region5_def)
  have x: "?x \<in> set (instructions example_region5)" "i_offset ?x \<le> 1" "1 < i_offset ?x + i_length ?x"
    by (simp_all add: example_region5_def)
  have first: "instruction_by_offset example_handle example_document (example_region5\<lparr>instructions := []\<rparr>) 1
               = Some (Inr (Some ?x), example_region5)"
    by (simp add: eval_simps example_region5_def example_document_def example_handle_def)
  from lookup_repeatable [OF len docs example_run6 c rd, unfolded off batch] x first
    example_handle_stable example_run6 batch
  show ?thesis by auto
qed

theorem lookup_after_clearing_differs_counterexample:
  "doc_contents (unreadable_at 0) = doc_contents example_document
   \<and> run example_handle [(example_document, Step), (example_document, Lookup 3)] (new_region 0 4 0)
       = Some example_region5
   \<and> processed_by_offset example_region5 1 = Some (hd (processed example_region5))
   \<and> instruction_by_offset example_handle (unreadable_at 0) example_region5 1
       = Some (Inr (Some (instructions example_region5 ! 1)), example_region5)
   \<and> instruction_by_offset example_handle (unreadable_at 0) (example_region5\<lparr>instructions := []\<rparr>) 1
       = Some (Inr None, example_region5\<lparr>instructions := []\<rparr>)"
  using example_run5
  by (simp add: eval_simps example_region5_def example_document_def unreadable_at_def)

subsection \<open>The live preview\<close>

text \<open>
  Claim C4. The claim has the preview choose a decoding whenever some candidate offset
  decodes to an instruction that covers the cursor, and report an invalid instruction
  only when none does. Step 2 of \<^verbatim>\<open>update\<close> also asks that \<^verbatim>\<open>lower_bound(position)\<close> is
  not \<^verbatim>\<open>end()\<close>, that is, that an instruction follows the covering one. For the document
  of the two bytes of one instruction and the cursor on its second byte, decoding from
  offset 0 yields that instruction, which covers the cursor and is the last of its
  sequence: \<^verbatim>\<open>update\<close> reports an invalid instruction.
\<close>

theorem update_rejects_last_covering_instruction:
  "read_data preview_document 0 WINDOW_SIZE = Inr [0xB0, 0x01]
   \<and> disassemble preview_handle 0 [0xB0, 0x01]
       = [(0, \<lparr>pi_length = 2, pi_disasm = ''mov'' @ [CHR 0x09] @ ''al''\<rparr>)]
   \<and> update True (Some preview_handle) preview_document 1 \<lparr>listing_lines = [], listing_centre = 0\<rparr>
       = \<lparr>listing_lines = [(1, ''<invalid instruction>'', True)], listing_centre = 0\<rparr>"
  by (simp add: update_def read_data_def WINDOW_SIZE_def c_div_def update_step1.simps update_step2.simps
        disassemble_def cs_while.simps cs_disasm_iter_def map_find_def overlaps_position_def
        lower_bound_def format_disasm_def preview_handle_def preview_document_def Let_def)

end
